theory Spec2Isabelle
  imports Complex_Main "HOL-Library.Code_Target_Nat"
begin

section \<open>Python strings\<close>

text \<open>
  A Python \<open>str\<close> is a sequence of Unicode code points. A code point is a natural
  number here, so that \<open>len\<close>, indexing and slicing count what Python counts, and
  \<open>str.isspace\<close> can be the one of Python 3 on the whole code space.
  \<open>str\<close> turns an ASCII literal into such a sequence.
\<close>

type_synonym pystr = "nat list"

definition str :: "string \<Rightarrow> pystr" where
  "str s = map of_char s"

text \<open>\<open>s[a:b]\<close> for indices \<open>0 \<le> a\<close>, \<open>0 \<le> b\<close>: out-of-range bounds are clipped.\<close>

definition slice :: "pystr \<Rightarrow> nat \<Rightarrow> nat \<Rightarrow> pystr" where
  "slice s a b = take (b - a) (drop a s)"

text \<open>
  The code points for which \<open>str.isspace\<close> holds: general category Zs, or
  bidirectional class WS, B or S.
\<close>

definition isspace :: "nat \<Rightarrow> bool" where
  "isspace c \<longleftrightarrow>
     (9 \<le> c \<and> c \<le> 13) \<or> (28 \<le> c \<and> c \<le> 32) \<or> c = 133 \<or> c = 160 \<or> c = 5760 \<or>
     (8192 \<le> c \<and> c \<le> 8202) \<or> c = 8232 \<or> c = 8233 \<or> c = 8239 \<or> c = 8287 \<or> c = 12288"

definition lstrip :: "pystr \<Rightarrow> pystr" where
  "lstrip s = dropWhile isspace s"

definition rstrip :: "pystr \<Rightarrow> pystr" where
  "rstrip s = rev (dropWhile isspace (rev s))"

definition strip :: "pystr \<Rightarrow> pystr" where
  "strip s = rstrip (lstrip s)"

text \<open>\<open>s.split(sep)\<close> for a one-character separator: \<open>cur\<close> is the piece being read.\<close>

fun py_split_from :: "nat \<Rightarrow> pystr \<Rightarrow> pystr \<Rightarrow> pystr list" where
  "py_split_from sep cur [] = [cur]"
| "py_split_from sep cur (c # s) =
     (if c = sep then cur # py_split_from sep [] s else py_split_from sep (cur @ [c]) s)"

definition py_split :: "nat \<Rightarrow> pystr \<Rightarrow> pystr list" where
  "py_split sep s = py_split_from sep [] s"

text \<open>\<open>sep.join(pieces)\<close>.\<close>

fun py_join :: "pystr \<Rightarrow> pystr list \<Rightarrow> pystr" where
  "py_join sep [] = []"
| "py_join sep [x] = x"
| "py_join sep (x # y # ys) = x @ sep @ py_join sep (y # ys)"

section \<open>fix-syntax.py: the comment rewriter\<close>

subsection \<open>\<open>replace_block\<close>\<close>

text \<open>
  The body of the \<open>for line in lines\<close> loop: the line that is appended to
  \<open>fixed_lines\<close>. The inner \<open>if stripped\<close> of the source is kept although its
  \<open>else\<close> branch cannot be reached.
\<close>

definition convert_line :: "pystr \<Rightarrow> pystr" where
  "convert_line line =
     (if strip line \<noteq> [] then
        (let stripped = lstrip line in
         if stripped \<noteq> [] then
           (let indent = slice line 0 (length line - length stripped)
            in indent @ str ''// '' @ stripped)
         else line)
      else line)"

definition banner :: pystr where
  "banner = str ''// DISABLED: Implementation pending''"

definition replace_block :: "pystr \<Rightarrow> pystr" where
  "replace_block comment_content =
     (let lines = py_split 10 comment_content;
          fixed_lines = fold (\<lambda>line fixed_lines. fixed_lines @ [convert_line line]) lines [];
          fixed_lines =
            (case fixed_lines of
               [] \<Rightarrow> fixed_lines
             | first_line # _ \<Rightarrow>
                 (let indent = slice first_line 0 (length first_line - length (lstrip first_line))
                  in (indent @ banner) # fixed_lines))
      in py_join [10] fixed_lines)"

subsection \<open>\<open>fix_multiline_comments\<close>\<close>

text \<open>
  The inner \<open>while j < len(content) - 1 and depth > 0\<close> loop, from the values of
  \<open>j\<close> and \<open>depth\<close> at its head to their values when it ends. The index is never
  negative, so \<open>j < len(content) - 1\<close> over Python's integers is \<open>j + 1 < length content\<close>.
\<close>

function scan_block :: "pystr \<Rightarrow> nat \<Rightarrow> int \<Rightarrow> nat \<times> int" where
  "scan_block content j depth =
     (if j + 1 < length content \<and> depth > 0 then
        (if slice content j (j + 2) = str ''/*'' then scan_block content (j + 2) (depth + 1)
         else if slice content j (j + 2) = str ''*/'' then scan_block content (j + 2) (depth - 1)
         else scan_block content (j + 1) depth)
      else (j, depth))"
  by pat_completeness auto
termination
  by (relation "measure (\<lambda>(content, j, depth). length content - j)") auto

declare scan_block.simps [simp del]

lemma scan_block_ge: "j \<le> fst (scan_block content j depth)"
proof (induction content j depth rule: scan_block.induct)
  case (1 content j depth)
  show ?case
    using 1 by (subst scan_block.simps) (auto split: if_splits)
qed

text \<open>
  The outer \<open>while i < len(content)\<close> loop, from the values of \<open>i\<close> and \<open>result\<close>
  at its head to the final \<open>result\<close>. \<open>content[i]\<close> is read under \<open>i < len(content)\<close>
  only, so it never raises.
\<close>

function rewrite_loop :: "pystr \<Rightarrow> nat \<Rightarrow> pystr \<Rightarrow> pystr" where
  "rewrite_loop content i result =
     (if i < length content then
        (if i + 1 < length content \<and> slice content i (i + 2) = str ''/*'' then
           (case scan_block content (i + 2) 1 of
              (j, depth) \<Rightarrow>
                if depth = 0 then
                  (let comment_content = slice content (i + 2) (j - 2);
                       fixed_comment = replace_block comment_content
                   in rewrite_loop content j (result @ fixed_comment))
                else rewrite_loop content (i + 1) (result @ [content ! i]))
         else rewrite_loop content (i + 1) (result @ [content ! i]))
      else result)"
  by pat_completeness auto
termination
proof (relation "measure (\<lambda>(content, i, result). length content - i)", goal_cases)
  case 1
  show ?case by simp
next
  case (2 content i result p j depth)
  have "i + 2 \<le> fst (scan_block content (i + 2) 1)"
    by (rule scan_block_ge)
  with 2 show ?case
    by (cases "scan_block content (i + 2) 1") auto
next
  case 3
  then show ?case by auto
next
  case 4
  then show ?case by auto
qed

declare rewrite_loop.simps [simp del]

definition fix_multiline_comments :: "pystr \<Rightarrow> pystr" where
  "fix_multiline_comments content = rewrite_loop content 0 []"

subsection \<open>\<open>fix_file\<close>\<close>

text \<open>
  \<open>re.match(r'^(/\*\*.*?\*/)', content, re.DOTALL)\<close>: the pattern is anchored at
  offset 0, \<open>.\<close> matches every character, and the lazy \<open>.*?\<close> takes the fewest
  characters after which \<open>*/\<close> follows. \<open>lazy_close s\<close> is the length of what
  \<open>.*?\*/\<close> matches at the start of \<open>s\<close>.
\<close>

fun lazy_close :: "pystr \<Rightarrow> nat option" where
  "lazy_close [] = None"
| "lazy_close (c # s) =
     (if slice (c # s) 0 2 = str ''*/'' then Some 2 else map_option Suc (lazy_close s))"

definition header_match :: "pystr \<Rightarrow> pystr option" where
  "header_match content =
     (if slice content 0 3 = str ''/**'' then
        map_option (\<lambda>n. slice content 0 (3 + n)) (lazy_close (drop 3 content))
      else None)"

text \<open>The text \<open>fix_file\<close> writes back (its variable \<open>fixed_content\<close>) for the text it read.\<close>

definition fixed_content :: "pystr \<Rightarrow> pystr" where
  "fixed_content content =
     (case header_match content of
        Some header \<Rightarrow>
          (let rest_content = drop (length header) content
           in header @ fix_multiline_comments rest_content)
      | None \<Rightarrow> fix_multiline_comments content)"

text \<open>
  \<open>fix_file\<close> on a store of decoded files: a path that cannot be opened makes
  \<open>open\<close> raise, which the \<open>except\<close> clause turns into the result \<open>False\<close> with the
  store as it was.
\<close>

definition fix_file :: "(string \<rightharpoonup> pystr) \<Rightarrow> string \<Rightarrow> bool \<times> (string \<rightharpoonup> pystr)" where
  "fix_file files filepath =
     (case files filepath of
        None \<Rightarrow> (False, files)
      | Some content \<Rightarrow> (True, files(filepath \<mapsto> fixed_content content)))"

section \<open>Python numbers\<close>

text \<open>
  The numbers of \<open>compare-duplication-reports.py\<close> are Python integers (unbounded)
  and Python floats (IEEE 754 binary64). A finite float is the rational it denotes;
  the two zeros are not told apart (they compare equal, and nothing below depends on
  the sign of a zero).
\<close>

datatype py_error = ZeroDivisionError | OverflowError

datatype pyfloat = Finite rat | PosInf | NegInf | NaN

datatype num = PyInt int | PyFloat pyfloat

text \<open>The number of binary digits of a positive integer.\<close>

function bitlen :: "int \<Rightarrow> int" where
  "bitlen n = (if 0 < n then 1 + bitlen (n div 2) else 0)"
  by pat_completeness auto
termination
  by (relation "measure nat") auto

declare bitlen.simps [simp del]

text \<open>\<open>ilog2 q\<close> is the binary exponent of \<open>q \<noteq> 0\<close>: \<open>2 ^ ilog2 q \<le> \<bar>q\<bar> < 2 ^ (ilog2 q + 1)\<close>.\<close>

definition ilog2 :: "rat \<Rightarrow> int" where
  "ilog2 q =
     (case quotient_of \<bar>q\<bar> of
        (a, b) \<Rightarrow>
          (let k = bitlen a - bitlen b
           in if 2 powi k \<le> \<bar>q\<bar> then k else k - 1))"

definition round_half_even :: "rat \<Rightarrow> int" where
  "round_half_even x =
     (let f = \<lfloor>x\<rfloor>; r = x - of_int f
      in if r < 1 / 2 then f else if 1 / 2 < r then f + 1 else if even f then f else f + 1)"

text \<open>
  Rounding to the nearest binary64 value, ties to even: 53 significant bits, and
  multiples of \<open>2 ^ - 1074\<close> in the subnormal range. The exponent is not bounded
  above here; \<open>overflows\<close> tells whether the rounded value is out of range, that is
  whether its magnitude is at least \<open>2 ^ 1024\<close>.
\<close>

definition round_binary64 :: "rat \<Rightarrow> rat" where
  "round_binary64 q =
     (if q = 0 then 0
      else (let e = max (ilog2 q - 52) (- 1074)
            in of_int (round_half_even (q / 2 powi e)) * 2 powi e))"

definition overflows :: "rat \<Rightarrow> bool" where
  "overflows r \<longleftrightarrow> r \<noteq> 0 \<and> 1024 \<le> ilog2 r"

text \<open>The result of a float operation whose exact value is \<open>q\<close>: overflow gives an infinity.\<close>

definition to_float :: "rat \<Rightarrow> pyfloat" where
  "to_float q =
     (let r = round_binary64 q
      in if overflows r then (if 0 < r then PosInf else NegInf) else Finite r)"

text \<open>\<open>float(n)\<close>, also applied implicitly to the integer operand of a mixed operation.\<close>

definition int_to_float :: "int \<Rightarrow> py_error + pyfloat" where
  "int_to_float n =
     (let r = round_binary64 (of_int n)
      in if overflows r then Inl OverflowError else Inr (Finite r))"

text \<open>\<open>a / b\<close> on integers: the correctly rounded quotient.\<close>

definition py_truediv :: "int \<Rightarrow> int \<Rightarrow> py_error + pyfloat" where
  "py_truediv a b =
     (if b = 0 then Inl ZeroDivisionError
      else (let r = round_binary64 (of_int a / of_int b)
            in if overflows r then Inl OverflowError else Inr (Finite r)))"

fun float_sign :: "pyfloat \<Rightarrow> rat" where
  "float_sign (Finite x) = sgn x"
| "float_sign PosInf = 1"
| "float_sign NegInf = - 1"
| "float_sign NaN = 0"

fun float_mul :: "pyfloat \<Rightarrow> pyfloat \<Rightarrow> pyfloat" where
  "float_mul (Finite x) (Finite y) = to_float (x * y)"
| "float_mul NaN y = NaN"
| "float_mul x NaN = NaN"
| "float_mul x y =
     (let s = float_sign x * float_sign y
      in if s = 0 then NaN else if 0 < s then PosInf else NegInf)"

fun float_sub :: "pyfloat \<Rightarrow> pyfloat \<Rightarrow> pyfloat" where
  "float_sub (Finite x) (Finite y) = to_float (x - y)"
| "float_sub NaN y = NaN"
| "float_sub x NaN = NaN"
| "float_sub PosInf PosInf = NaN"
| "float_sub NegInf NegInf = NaN"
| "float_sub PosInf y = PosInf"
| "float_sub NegInf y = NegInf"
| "float_sub x PosInf = NegInf"
| "float_sub x NegInf = PosInf"

fun float_le :: "pyfloat \<Rightarrow> pyfloat \<Rightarrow> bool" where
  "float_le (Finite x) (Finite y) \<longleftrightarrow> x \<le> y"
| "float_le NaN y \<longleftrightarrow> False"
| "float_le x NaN \<longleftrightarrow> False"
| "float_le NegInf y \<longleftrightarrow> True"
| "float_le x PosInf \<longleftrightarrow> True"
| "float_le x y \<longleftrightarrow> False"

text \<open>
  Python compares an integer with a float by value, without rounding the integer;
  \<open>num_val\<close> is the value compared.
\<close>

fun num_val :: "num \<Rightarrow> pyfloat" where
  "num_val (PyInt n) = Finite (of_int n)"
| "num_val (PyFloat x) = x"

definition py_le :: "num \<Rightarrow> num \<Rightarrow> bool" where
  "py_le a b = float_le (num_val a) (num_val b)"

definition py_ge :: "num \<Rightarrow> num \<Rightarrow> bool" where
  "py_ge a b = float_le (num_val b) (num_val a)"

text \<open>\<open>a - b\<close>: exact on two integers, a float operation as soon as one operand is a float.\<close>

fun py_sub :: "num \<Rightarrow> num \<Rightarrow> py_error + num" where
  "py_sub (PyInt a) (PyInt b) = Inr (PyInt (a - b))"
| "py_sub (PyFloat x) (PyFloat y) = Inr (PyFloat (float_sub x y))"
| "py_sub (PyInt a) (PyFloat y) =
     (case int_to_float a of Inl e \<Rightarrow> Inl e | Inr x \<Rightarrow> Inr (PyFloat (float_sub x y)))"
| "py_sub (PyFloat x) (PyInt b) =
     (case int_to_float b of Inl e \<Rightarrow> Inl e | Inr y \<Rightarrow> Inr (PyFloat (float_sub x y)))"

text \<open>
  Formatting a number with \<open>.1f\<close> or \<open>.2f\<close>: an integer is first converted to a
  float, which raises when it is too large. The characters produced are not modelled.
  \<open>format_all\<close> formats several numbers in turn and stops at the first error.
\<close>

fun format_f :: "num \<Rightarrow> py_error + unit" where
  "format_f (PyInt n) = (case int_to_float n of Inl e \<Rightarrow> Inl e | Inr x \<Rightarrow> Inr ())"
| "format_f (PyFloat x) = Inr ()"

fun format_all :: "num list \<Rightarrow> py_error + unit" where
  "format_all [] = Inr ()"
| "format_all (x # xs) = (case format_f x of Inl e \<Rightarrow> Inl e | Inr u \<Rightarrow> format_all xs)"

declare format_all.simps [simp del]

subsection \<open>A range without overflow\<close>

text \<open>
  No operation of the script overflows on integers of magnitude at most \<open>2 ^ 1000\<close>,
  far above any count of lines, tokens or clones; \<open>num_in_range\<close> asks this of a
  number when it is an integer.
\<close>

definition count_bound :: int where
  "count_bound = 2 ^ 1000"

definition in_range :: "int \<Rightarrow> bool" where
  "in_range n \<longleftrightarrow> \<bar>n\<bar> \<le> count_bound"

fun num_in_range :: "num \<Rightarrow> bool" where
  "num_in_range (PyInt n) = in_range n"
| "num_in_range (PyFloat x) = True"

section \<open>compare-duplication-reports.py\<close>

text \<open>
  The expression \<open>(a / b * 100) if b > 0 else 0\<close>, which the script writes five
  times: a float when \<open>b\<close> is positive, the integer 0 otherwise.
\<close>

definition ratio_pct :: "int \<Rightarrow> int \<Rightarrow> py_error + num" where
  "ratio_pct a b =
     (if 0 < b then
        (case py_truediv a b of
           Inl e \<Rightarrow> Inl e
         | Inr q \<Rightarrow> Inr (PyFloat (float_mul q (Finite 100))))
      else Inr (PyInt 0))"

subsection \<open>\<open>extract_metrics\<close>\<close>

text \<open>
  A jscpd report: \<open>report['statistics']['formats']\<close> is a dictionary from format
  names to dictionaries, whose optional entry \<open>'total'\<close> holds integer counts. The
  items are kept in the order \<open>.items()\<close> yields them.
\<close>

type_synonym total_data = "string \<rightharpoonup> int"

type_synonym format_data = "string \<rightharpoonup> total_data"

record statistics =
  formats :: "(string \<times> format_data) list"

record report =
  statistics :: statistics

record metrics =
  total_lines :: int
  total_tokens :: int
  duplicated_lines :: int
  duplicated_tokens :: int
  total_clones :: int
  line_duplication_pct :: num
  token_duplication_pct :: num

text \<open>\<open>d.get(key, default)\<close>.\<close>

definition get :: "total_data \<Rightarrow> string \<Rightarrow> int \<Rightarrow> int" where
  "get d key dflt = (case d key of Some v \<Rightarrow> v | None \<Rightarrow> dflt)"

text \<open>
  One round of the \<open>for format_name, format_data in ...\<close> loop on the five running
  totals, which the script names \<open>total_lines\<close>, \<open>total_tokens\<close>, \<open>total_dup_lines\<close>,
  \<open>total_dup_tokens\<close> and \<open>total_clones\<close> (\<open>n_lines\<close>, \<open>n_tokens\<close>, \<open>dup_lines\<close>,
  \<open>dup_tokens\<close> and \<open>n_clones\<close> here, the names of the metrics being taken).
\<close>

fun add_format ::
  "string \<times> format_data \<Rightarrow> int \<times> int \<times> int \<times> int \<times> int \<Rightarrow> int \<times> int \<times> int \<times> int \<times> int" where
  "add_format (format_name, format_data) (n_lines, n_tokens, dup_lines, dup_tokens, n_clones) =
     (case format_data ''total'' of
        Some total_data \<Rightarrow>
          (n_lines + get total_data ''lines'' 0,
           n_tokens + get total_data ''tokens'' 0,
           dup_lines + get total_data ''duplicatedLines'' 0,
           dup_tokens + get total_data ''duplicatedTokens'' 0,
           n_clones + get total_data ''clones'' 0)
      | None \<Rightarrow> (n_lines, n_tokens, dup_lines, dup_tokens, n_clones))"

definition extract_metrics :: "report \<Rightarrow> py_error + metrics" where
  "extract_metrics report =
     (let stats = statistics report in
      case fold add_format (formats stats) (0, 0, 0, 0, 0) of
        (n_lines, n_tokens, dup_lines, dup_tokens, n_clones) \<Rightarrow>
          (case ratio_pct dup_lines n_lines of
             Inl e \<Rightarrow> Inl e
           | Inr line_pct \<Rightarrow>
               (case ratio_pct dup_tokens n_tokens of
                  Inl e \<Rightarrow> Inl e
                | Inr token_pct \<Rightarrow>
                    Inr \<lparr>total_lines = n_lines,
                         total_tokens = n_tokens,
                         duplicated_lines = dup_lines,
                         duplicated_tokens = dup_tokens,
                         total_clones = n_clones,
                         line_duplication_pct = line_pct,
                         token_duplication_pct = token_pct\<rparr>)))"

subsection \<open>\<open>compare_metrics\<close>\<close>

text \<open>
  \<open>compare_metrics\<close> returns nothing and prints. The model returns what it prints
  after the two blocks that echo its arguments: the numbers before formatting, and
  the three verdicts as the strings printed. An exception leaves the report unprinted
  from there on, so the model returns the error alone; the float formats are kept in
  the order of the prints because their conversion may raise. The local variables
  carry a prime, their names being those of the fields.
\<close>

record summary =
  line_reduction :: int
  token_reduction :: int
  clone_reduction :: int
  line_reduction_pct :: num
  token_reduction_pct :: num
  clone_reduction_pct :: num
  line_pct_change :: num
  token_pct_change :: num
  token_pct_verdict :: string
  clones_verdict :: string
  reduction_verdict :: string
  all_pass :: bool

definition verdict :: "bool \<Rightarrow> string" where
  "verdict pass = (if pass then ''PASS'' else ''FAIL'')"

definition compare_metrics :: "metrics \<Rightarrow> metrics \<Rightarrow> py_error + summary" where
  "compare_metrics baseline final =
     (let line_reduction' = duplicated_lines baseline - duplicated_lines final;
          token_reduction' = duplicated_tokens baseline - duplicated_tokens final;
          clone_reduction' = total_clones baseline - total_clones final
      in
      case format_all [line_duplication_pct baseline, token_duplication_pct baseline,
             line_duplication_pct final, token_duplication_pct final] of Inl e \<Rightarrow> Inl e | Inr printed \<Rightarrow>
      case ratio_pct line_reduction' (duplicated_lines baseline) of Inl e \<Rightarrow> Inl e | Inr line_reduction_pct' \<Rightarrow>
      case ratio_pct token_reduction' (duplicated_tokens baseline) of Inl e \<Rightarrow> Inl e | Inr token_reduction_pct' \<Rightarrow>
      case ratio_pct clone_reduction' (total_clones baseline) of Inl e \<Rightarrow> Inl e | Inr clone_reduction_pct' \<Rightarrow>
      case py_sub (line_duplication_pct baseline) (line_duplication_pct final) of Inl e \<Rightarrow> Inl e | Inr line_pct_change' \<Rightarrow>
      case py_sub (token_duplication_pct baseline) (token_duplication_pct final) of Inl e \<Rightarrow> Inl e | Inr token_pct_change' \<Rightarrow>
      case format_all [line_reduction_pct', token_reduction_pct', clone_reduction_pct',
             line_pct_change', token_pct_change'] of Inl e \<Rightarrow> Inl e | Inr printed \<Rightarrow>
        (let target_token_pct = PyFloat (Finite (45 / 10));
             target_clones = 100;
             token_pct_pass = py_le (token_duplication_pct final) target_token_pct;
             clones_pass = (total_clones final \<le> target_clones);
             reduction_pass = py_ge token_reduction_pct' (PyInt 40)
         in Inr \<lparr>line_reduction = line_reduction',
                 token_reduction = token_reduction',
                 clone_reduction = clone_reduction',
                 line_reduction_pct = line_reduction_pct',
                 token_reduction_pct = token_reduction_pct',
                 clone_reduction_pct = clone_reduction_pct',
                 line_pct_change = line_pct_change',
                 token_pct_change = token_pct_change',
                 token_pct_verdict = verdict token_pct_pass,
                 clones_verdict = verdict clones_pass,
                 reduction_verdict = verdict reduction_pass,
                 all_pass = (token_pct_pass \<and> clones_pass \<and> reduction_pass)\<rparr>))"

section \<open>The rewriter as the specification describes it\<close>

lemma str_open [simp]: "str ''/*'' = [47, 42]"
  by (simp add: str_def)

lemma str_close [simp]: "str ''*/'' = [42, 47]"
  by (simp add: str_def)

text \<open>
  Section 4.1 of the specification describes the scan on the text that is still to be
  read, without indices. \<open>region_end d s\<close> reads \<open>s\<close> with \<open>d\<close> regions open: an open
  marker adds one, a close marker takes one away, any other character is skipped. When
  the depth comes back to zero the result is the interior read so far and the text
  after the close marker; at the end of the text the region is unterminated and the
  result is \<open>None\<close>.
\<close>

fun region_end :: "nat \<Rightarrow> pystr \<Rightarrow> (pystr \<times> pystr) option" where
  "region_end d (a # b # s) =
     (if [a, b] = str ''/*'' then
        map_option (\<lambda>(interior, rest). (a # b # interior, rest)) (region_end (d + 1) s)
      else if [a, b] = str ''*/'' then
        (if d \<le> 1 then Some ([], s)
         else map_option (\<lambda>(interior, rest). (a # b # interior, rest)) (region_end (d - 1) s))
      else map_option (\<lambda>(interior, rest). (a # interior, rest)) (region_end d (b # s)))"
| "region_end d s = None"

lemma region_end_split:
  "region_end d s = Some (interior, rest) \<Longrightarrow> s = interior @ str ''*/'' @ rest"
  by (induction d s arbitrary: interior rest rule: region_end.induct)
     (auto simp: str_def split: if_splits)

text \<open>
  The same reading as a relation, one rule for each thing the depth counter does:
  \<open>closes d s interior rest\<close> holds when, reading \<open>s\<close> with \<open>d\<close> regions open, the
  depth first comes back to zero at the close marker that follows \<open>interior\<close>, and
  \<open>rest\<close> is the text after that marker.
\<close>

inductive closes :: "nat \<Rightarrow> pystr \<Rightarrow> pystr \<Rightarrow> pystr \<Rightarrow> bool" where
  last_close: "closes 1 (str ''*/'' @ rest) [] rest"
| opens: "closes (d + 1) s interior rest \<Longrightarrow> 1 \<le> d \<Longrightarrow>
     closes d (str ''/*'' @ s) (str ''/*'' @ interior) rest"
| inner_close: "closes d s interior rest \<Longrightarrow>
     closes (d + 1) (str ''*/'' @ s) (str ''*/'' @ interior) rest"
| other: "closes d s interior rest \<Longrightarrow> slice (c # s) 0 2 \<noteq> str ''/*'' \<Longrightarrow>
     slice (c # s) 0 2 \<noteq> str ''*/'' \<Longrightarrow> closes d (c # s) (c # interior) rest"

text \<open>
  The body scan of the specification: a well-formed region is replaced by its
  rewriting and the scan resumes after its close marker; an open marker whose region
  is unterminated is copied and the scan resumes one character after it; any other
  character is copied.
\<close>

lemma region_end_length:
  "region_end d s = Some (interior, rest) \<Longrightarrow> length rest < length s"
  by (drule region_end_split) simp

function spec_rewrite_body :: "pystr \<Rightarrow> pystr" where
  "spec_rewrite_body [] = []"
| "spec_rewrite_body (c # s) =
     (if slice (c # s) 0 2 = str ''/*'' then
        (case region_end 1 (tl s) of
           Some (interior, rest) \<Rightarrow> replace_block interior @ spec_rewrite_body rest
         | None \<Rightarrow> c # spec_rewrite_body s)
      else c # spec_rewrite_body s)"
  by pat_completeness auto
termination
  by (relation "measure length") (auto dest!: region_end_length)

declare spec_rewrite_body.simps(2) [simp del]

text \<open>
  The header step of the specification: when the buffer begins with the header open
  marker, the first close marker after it is searched without counting nesting, and
  the body scan starts just past it; without such a close marker there is no header.
\<close>

definition spec_header_end :: "pystr \<Rightarrow> nat option" where
  "spec_header_end buffer =
     (if take 3 buffer = str ''/**'' then
        find (\<lambda>k. take 2 (drop k buffer) = str ''*/'') [3..<length buffer]
      else None)"

definition spec_rewrite :: "pystr \<Rightarrow> pystr" where
  "spec_rewrite buffer =
     (case spec_header_end buffer of
        Some k \<Rightarrow> take (k + 2) buffer @ spec_rewrite_body (drop (k + 2) buffer)
      | None \<Rightarrow> spec_rewrite_body buffer)"

section \<open>The loops read on the remaining text\<close>

lemma slice_append: "slice (pre @ s) (length pre + a) b = slice s a (b - length pre)"
  by (simp add: slice_def)

lemma scan_block_append:
  "scan_block (pre @ s) (length pre + j) d =
     (case scan_block s j d of (k, d') \<Rightarrow> (length pre + k, d'))"
proof (induction s j d rule: scan_block.induct)
  case (1 content j depth)
  have a: "slice (pre @ content) (length pre + j) (length pre + j + 2) = slice content j (j + 2)"
    by (simp add: slice_def)
  show ?case
  proof (cases "j + 1 < length content \<and> depth > 0")
    case False
    then show ?thesis
      by (subst scan_block.simps, subst (2) scan_block.simps) auto
  next
    case True
    note t = True
    show ?thesis
    proof (cases "slice content j (j + 2) = str ''/*''")
      case True
      with t 1(1) a show ?thesis
        by (subst scan_block.simps, subst (2) scan_block.simps) (simp add: add.assoc)
    next
      case False
      note f = False
      show ?thesis
      proof (cases "slice content j (j + 2) = str ''*/''")
        case True
        with t f 1(2) a show ?thesis
          by (subst scan_block.simps, subst (2) scan_block.simps) (simp add: add.assoc)
      next
        case False
        with t f 1(3) a show ?thesis
          by (subst scan_block.simps, subst (2) scan_block.simps) (simp add: add.assoc)
      qed
    qed
  qed
qed

lemma rewrite_loop_acc: "rewrite_loop content i result = result @ rewrite_loop content i []"
proof (induction "length content - i" arbitrary: i result rule: less_induct)
  case less
  note unf = rewrite_loop.simps[of content i result] rewrite_loop.simps[of content i "[]"]
  show ?case
  proof (cases "i < length content")
    case False
    then show ?thesis
      unfolding unf by simp
  next
    case True
    note t = True
    then have lt: "length content - (i + 1) < length content - i" by simp
    have step: "rewrite_loop content (i + 1) (result @ [content ! i]) =
        result @ rewrite_loop content (i + 1) [content ! i]"
      using less[OF lt, of "result @ [content ! i]"] less[OF lt, of "[content ! i]"] by simp
    obtain j depth where sb: "scan_block content (i + 2) 1 = (j, depth)"
      by (cases "scan_block content (i + 2) 1")
    have "i + 2 \<le> j"
      using scan_block_ge[of "i + 2" content 1] sb by simp
    with t have ltj: "length content - j < length content - i" by simp
    have jump: "rewrite_loop content j (result @ r) = result @ rewrite_loop content j r" for r
      using less[OF ltj, of "result @ r"] less[OF ltj, of r] by simp
    show ?thesis
      unfolding unf using t sb step jump by (simp add: Let_def)
  qed
qed

lemma rewrite_loop_append:
  "rewrite_loop (pre @ s) (length pre + i) result = rewrite_loop s i result"
proof (induction s i result rule: rewrite_loop.induct)
  case (1 content i result)
  note unf = rewrite_loop.simps[of "pre @ content" "length pre + i" result]
    rewrite_loop.simps[of content i result]
  have a: "slice (pre @ content) (length pre + i) (length pre + i + 2) = slice content i (i + 2)"
    by (simp add: slice_def)
  show ?case
  proof (cases "i < length content")
    case False
    then show ?thesis
      unfolding unf by simp
  next
    case True
    note t = True
    show ?thesis
    proof (cases "i + 1 < length content \<and> slice content i (i + 2) = str ''/*''")
      case False
      with t 1(3) a show ?thesis
        unfolding unf by (auto simp: add.assoc nth_append)
    next
      case True
      note o = True
      obtain j depth where sb: "scan_block content (i + 2) 1 = (j, depth)"
        by (cases "scan_block content (i + 2) 1")
      have sb': "scan_block (pre @ content) (length pre + i + 2) 1 = (length pre + j, depth)"
        using scan_block_append[of pre content "i + 2" 1] sb by (simp add: add.assoc)
      have ge: "i + 2 \<le> j"
        using scan_block_ge[of "i + 2" content 1] sb by simp
      have sl: "slice (pre @ content) (length pre + i + 2) (length pre + j - 2) = slice content (i + 2) (j - 2)"
      proof -
        have e: "length pre + j - 2 - (length pre + i + 2) = j - 2 - (i + 2)"
          using ge by arith
        have d: "drop (length pre + i + 2) (pre @ content) = drop (i + 2) content"
          by (simp add: add.assoc)
        show ?thesis
          unfolding slice_def e d ..
      qed
      show ?thesis
      proof (cases "depth = 0")
        case True
        with t o a sb sb' sl 1(1)[OF t o sb[symmetric] True refl refl] show ?thesis
          unfolding unf by (simp add: Let_def)
      next
        case False
        with t o a sb sb' 1(2)[OF t o sb[symmetric] False] show ?thesis
          unfolding unf by (simp add: add.assoc nth_append)
      qed
    qed
  qed
qed

lemma rewrite_loop_drop:
  "rewrite_loop content i result = result @ fix_multiline_comments (drop i content)"
proof (cases "i \<le> length content")
  case True
  then have "rewrite_loop (take i content @ drop i content) (length (take i content) + 0) [] =
      rewrite_loop (drop i content) 0 []"
    by (intro rewrite_loop_append)
  with True have "rewrite_loop content i [] = rewrite_loop (drop i content) 0 []"
    by (simp add: min_absorb2)
  then show ?thesis
    using rewrite_loop_acc[of content i result] by (simp add: fix_multiline_comments_def)
next
  case False
  then show ?thesis
    by (subst rewrite_loop.simps) (simp add: fix_multiline_comments_def rewrite_loop.simps)
qed


lemma drop_two:
  "j + 1 < length s \<Longrightarrow> drop j s = s ! j # s ! (j + 1) # drop (j + 2) s"
  by (metis Cons_nth_drop_Suc Suc_eq_plus1 Suc_lessD add_2_eq_Suc')

lemma slice_two:
  "j + 1 < length s \<Longrightarrow> slice s j (j + 2) = [s ! j, s ! (j + 1)]"
  by (simp add: slice_def drop_two)

lemma scan_block_done: "depth \<le> 0 \<Longrightarrow> scan_block content j depth = (j, depth)"
  by (subst scan_block.simps) simp

lemma scan_block_region:
  "1 \<le> depth \<Longrightarrow>
     (case region_end (nat depth) (drop j s) of
        Some (interior, rest) \<Rightarrow> scan_block s j depth = (j + length interior + 2, 0)
      | None \<Rightarrow> snd (scan_block s j depth) \<noteq> 0)"
proof (induction s j depth rule: scan_block.induct)
  case (1 content j depth)
  note unf = scan_block.simps[of content j depth]
  show ?case
  proof (cases "j + 1 < length content")
    case False
    then have "length (drop j content) \<le> 1" by simp
    then have "region_end (nat depth) (drop j content) = None"
      by (cases "drop j content"; cases "tl (drop j content)") auto
    with False 1(4) show ?thesis
      unfolding unf by simp
  next
    case True
    note t = True
    define a b r where "a = content ! j" and "b = content ! (j + 1)" and "r = drop (j + 2) content"
    have dr: "drop j content = a # b # r"
      unfolding a_def b_def r_def by (rule drop_two[OF t])
    have sl: "slice content j (j + 2) = [a, b]"
      unfolding a_def b_def by (rule slice_two[OF t])
    have dr1: "drop (j + 1) content = b # r"
      using dr by (metis Suc_eq_plus1 drop_Suc list.sel(3) tl_drop)
    show ?thesis
    proof (cases "[a, b] = str ''/*''")
      case True
      with t 1(1) 1(4) sl dr show ?thesis
        unfolding unf by (auto simp: r_def nat_add_distrib split: option.splits)
    next
      case False
      note f = False
      show ?thesis
      proof (cases "[a, b] = str ''*/''")
        case True
        note c = True
        show ?thesis
        proof (cases "depth = 1")
          case True
          with t f c sl dr show ?thesis
            unfolding unf by (simp add: scan_block_done)
        next
          case False
          with 1(4) have "1 \<le> depth - 1" "\<not> nat depth \<le> 1" "nat (depth - 1) = nat depth - 1" by auto
          with t f c 1(2) 1(4) sl dr show ?thesis
            unfolding unf by (auto simp: r_def split: option.splits)
        qed
      next
        case False
        with t f 1(3) 1(4) sl dr dr1 show ?thesis
          unfolding unf by (auto split: option.splits)
      qed
    qed
  qed
qed


lemma rewrite_loop_end:
  "\<not> i < length content \<Longrightarrow> rewrite_loop content i result = result"
  by (subst rewrite_loop.simps) simp

lemma rewrite_loop_copy:
  "i < length content \<Longrightarrow> \<not> (i + 1 < length content \<and> slice content i (i + 2) = str ''/*'') \<Longrightarrow>
     rewrite_loop content i result = rewrite_loop content (i + 1) (result @ [content ! i])"
  by (subst rewrite_loop.simps) auto

lemma rewrite_loop_region:
  "i + 1 < length content \<Longrightarrow> slice content i (i + 2) = str ''/*'' \<Longrightarrow>
     scan_block content (i + 2) 1 = (j, 0) \<Longrightarrow>
     rewrite_loop content i result =
       rewrite_loop content j (result @ replace_block (slice content (i + 2) (j - 2)))"
  by (subst rewrite_loop.simps) (simp add: Let_def)

lemma rewrite_loop_unterminated:
  "i + 1 < length content \<Longrightarrow> slice content i (i + 2) = str ''/*'' \<Longrightarrow>
     snd (scan_block content (i + 2) 1) \<noteq> 0 \<Longrightarrow>
     rewrite_loop content i result = rewrite_loop content (i + 1) (result @ [content ! i])"
  by (subst rewrite_loop.simps) (simp add: split_beta)

lemma fix_Nil: "fix_multiline_comments [] = []"
  by (simp add: fix_multiline_comments_def rewrite_loop_end)

lemma fix_other:
  assumes "slice (c # s) 0 2 \<noteq> str ''/*''"
  shows "fix_multiline_comments (c # s) = c # fix_multiline_comments s"
proof -
  have n: "\<not> (0 + 1 < length (c # s) \<and> slice (c # s) 0 (0 + 2) = str ''/*'')"
    using assms by (simp only: add_0) simp
  have "fix_multiline_comments (c # s) = rewrite_loop (c # s) 0 []"
    by (simp add: fix_multiline_comments_def)
  also have "\<dots> = rewrite_loop (c # s) (0 + 1) ([] @ [(c # s) ! 0])"
    by (rule rewrite_loop_copy[OF _ n]) simp
  also have "\<dots> = ([] @ [(c # s) ! 0]) @ fix_multiline_comments (drop (0 + 1) (c # s))"
    by (rule rewrite_loop_drop)
  finally show ?thesis by simp
qed

lemma open_marker_at_0:
  "0 + 1 < length (str ''/*'' @ s)" "slice (str ''/*'' @ s) 0 (0 + 2) = str ''/*''"
  by (simp_all add: slice_def)

lemma fix_region:
  assumes "region_end 1 s = Some (interior, rest)"
  shows "fix_multiline_comments (str ''/*'' @ s) = replace_block interior @ fix_multiline_comments rest"
proof -
  let ?c = "str ''/*'' @ s"
  let ?j = "2 + length interior + 2"
  have s: "s = interior @ str ''*/'' @ rest"
    using assms by (rule region_end_split)
  have "drop 2 ?c = s" by simp
  with scan_block_region[where depth = 1 and j = 2 and s = ?c] assms
  have "scan_block ?c 2 1 = (?j, 0)"
    by simp
  then have sb: "scan_block ?c (0 + 2) 1 = (?j, 0)"
    by (simp add: numeral_2_eq_2)
  have "slice ?c (0 + 2) (?j - 2) = take (length interior) s"
    by (simp add: slice_def)
  also have "\<dots> = interior"
    by (subst s) simp
  finally have sl: "slice ?c (0 + 2) (?j - 2) = interior" .
  have "drop ?j ?c = drop (length interior + 2) s"
    by simp
  also have "\<dots> = rest"
    by (subst s) simp
  finally have dr: "drop ?j ?c = rest" .
  have "fix_multiline_comments ?c = rewrite_loop ?c 0 []"
    by (simp add: fix_multiline_comments_def)
  also have "\<dots> = rewrite_loop ?c ?j ([] @ replace_block (slice ?c (0 + 2) (?j - 2)))"
    by (rule rewrite_loop_region[OF open_marker_at_0 sb])
  also have "\<dots> = ([] @ replace_block (slice ?c (0 + 2) (?j - 2))) @ fix_multiline_comments (drop ?j ?c)"
    by (rule rewrite_loop_drop)
  finally show ?thesis
    unfolding sl dr by simp
qed

lemma fix_unterminated:
  assumes "region_end 1 s = None"
  shows "fix_multiline_comments (str ''/*'' @ s) = 47 # fix_multiline_comments (42 # s)"
proof -
  let ?c = "str ''/*'' @ s"
  have "drop 2 ?c = s" by simp
  with scan_block_region[where depth = 1 and j = 2 and s = ?c] assms
  have "snd (scan_block ?c 2 1) \<noteq> 0"
    by simp
  then have sb: "snd (scan_block ?c (0 + 2) 1) \<noteq> 0"
    by (simp add: numeral_2_eq_2)
  have "fix_multiline_comments ?c = rewrite_loop ?c 0 []"
    by (simp add: fix_multiline_comments_def)
  also have "\<dots> = rewrite_loop ?c (0 + 1) ([] @ [?c ! 0])"
    by (rule rewrite_loop_unterminated[OF open_marker_at_0 sb])
  also have "\<dots> = ([] @ [?c ! 0]) @ fix_multiline_comments (drop (0 + 1) ?c)"
    by (rule rewrite_loop_drop)
  finally show ?thesis by simp
qed

lemma fix_eq_spec_body: "fix_multiline_comments s = spec_rewrite_body s"
proof (induction s rule: spec_rewrite_body.induct)
  case 1
  show ?case by (simp add: fix_Nil)
next
  case (2 c s)
  note unf = spec_rewrite_body.simps(2)[of c s]
  show ?case
  proof (cases "slice (c # s) 0 2 = str ''/*''")
    case False
    with 2(3) show ?thesis
      unfolding unf by (simp add: fix_other)
  next
    case True
    then obtain t where cs: "c = 47" "s = 42 # t"
      by (cases s) (auto simp: slice_def)
    then have e: "c # s = str ''/*'' @ t" and tl: "tl s = t" by simp_all
    show ?thesis
    proof (cases "region_end 1 t")
      case None
      have "slice (42 # t) 0 2 \<noteq> str ''/*''"
        by (simp add: slice_def)
      then have "fix_multiline_comments (42 # t) = 42 # fix_multiline_comments t"
        by (rule fix_other)
      then have "fix_multiline_comments (c # s) = c # fix_multiline_comments s"
        unfolding e using fix_unterminated[OF None] cs by simp
      moreover have n: "region_end 1 (tl s) = None"
        using None tl by simp
      moreover have "fix_multiline_comments s = spec_rewrite_body s"
        by (rule 2(1)[OF True n])
      ultimately show ?thesis
        unfolding unf using True by simp
    next
      case (Some p)
      obtain interior rest where p: "p = (interior, rest)" by (cases p)
      have "fix_multiline_comments (c # s) = replace_block interior @ fix_multiline_comments rest"
        unfolding e using Some p by (intro fix_region) simp
      moreover have r: "region_end 1 (tl s) = Some (interior, rest)"
        using Some p tl by simp
      moreover have "fix_multiline_comments rest = spec_rewrite_body rest"
        by (rule 2(2)[OF True r refl])
      ultimately show ?thesis
        unfolding unf using True by simp
    qed
  qed
qed

lemma slice_Suc_Suc_0 [simp]: "slice s a (Suc (Suc 0)) = slice s a 2"
  by (simp add: numeral_2_eq_2)

lemma fix_no_open:
  "(\<forall>i. slice s i (i + 2) \<noteq> str ''/*'') \<Longrightarrow> fix_multiline_comments s = s"
proof (induction s)
  case Nil
  show ?case by (rule fix_Nil)
next
  case (Cons c s)
  have "slice (c # s) 0 2 \<noteq> str ''/*''"
    using Cons.prems[rule_format, of 0] by simp
  then have "fix_multiline_comments (c # s) = c # fix_multiline_comments s"
    by (rule fix_other)
  moreover have "slice s i (i + 2) \<noteq> str ''/*''" for i
    using Cons.prems[rule_format, of "Suc i"] by (simp add: slice_def)
  then have "fix_multiline_comments s = s"
    using Cons.IH by blast
  ultimately show ?case by simp
qed

lemma header_match_open:
  "header_match content = Some header \<Longrightarrow> slice content 0 2 = str ''/*''"
  by (cases content rule: list.exhaust; cases "tl content"; cases "tl (tl content)")
     (auto simp: header_match_def slice_def str_def split: if_splits)

section \<open>Regions and the header\<close>

lemma closes_depth: "closes d s interior rest \<Longrightarrow> 1 \<le> d"
  by (induction rule: closes.induct) auto

lemma closes_region_end:
  "closes d s interior rest \<Longrightarrow> region_end d s = Some (interior, rest)"
proof (induction rule: closes.induct)
  case (last_close rest)
  show ?case by simp
next
  case (opens d s interior rest)
  then show ?case by simp
next
  case (inner_close d s interior rest)
  then show ?case
    using closes_depth[of d s interior rest] by simp
next
  case (other d s interior rest c)
  from other(4) obtain b t where s: "s = b # t"
    by (cases s) auto
  with other show ?case
    by (auto simp: slice_def)
qed

lemma region_end_closes:
  "region_end d s = Some (interior, rest) \<Longrightarrow> 1 \<le> d \<Longrightarrow> closes d s interior rest"
proof (induction d s arbitrary: interior rest rule: region_end.induct)
  case (1 d a b s)
  show ?case
  proof (cases "[a, b] = str ''/*''")
    case True
    with 1(4) obtain i where i: "region_end (d + 1) s = Some (i, rest)" "interior = a # b # i"
      by auto
    have "closes (d + 1) s i rest"
      using 1(1)[OF True i(1)] by simp
    then have "closes d (str ''/*'' @ s) (str ''/*'' @ i) rest"
      using 1(5) by (rule closes.opens)
    with True i show ?thesis by simp
  next
    case False
    note f = False
    show ?thesis
    proof (cases "[a, b] = str ''*/''")
      case True
      note c = True
      show ?thesis
      proof (cases "d \<le> 1")
        case True
        with 1(5) have d: "d = 1" by simp
        from True f c 1(4) have "interior = []" "rest = s" by auto
        with d c closes.last_close[of s] show ?thesis by simp
      next
        case False
        with f c 1(4) obtain i where i: "region_end (d - 1) s = Some (i, rest)" "interior = a # b # i"
          by auto
        have "closes (d - 1) s i rest"
          using 1(2)[OF f c False i(1)] False by simp
        then have "closes (d - 1 + 1) (str ''*/'' @ s) (str ''*/'' @ i) rest"
          by (rule closes.inner_close)
        with False c i show ?thesis by simp
      qed
    next
      case False
      with f 1(4) obtain i where i: "region_end d (b # s) = Some (i, rest)" "interior = a # i"
        by auto
      have "closes d (b # s) i rest"
        using 1(3)[OF f False i(1)] 1(5) by simp
      then have "closes d (a # b # s) (a # i) rest"
        using f False by (intro closes.other) (simp_all add: slice_def)
      with i show ?thesis by simp
    qed
  qed
qed simp_all

lemma slice_full:
  "slice s a (a + n) = t \<Longrightarrow> length t = n \<Longrightarrow> 0 < n \<Longrightarrow> a + n \<le> length s"
  by (auto simp: slice_def min_def split: if_splits)

lemma lazy_close_first:
  "slice s k (k + 2) = str ''*/'' \<Longrightarrow> (\<forall>k'<k. slice s k' (k' + 2) \<noteq> str ''*/'') \<Longrightarrow>
     lazy_close s = Some (k + 2)"
proof (induction s arbitrary: k)
  case Nil
  then show ?case by (simp add: slice_def)
next
  case (Cons c s)
  show ?case
  proof (cases k)
    case 0
    with Cons.prems(1) show ?thesis by simp
  next
    case (Suc n)
    have "slice (c # s) 0 2 \<noteq> str ''*/''"
      using Cons.prems(2)[rule_format, of 0] Suc by simp
    moreover have "slice s n (n + 2) = str ''*/''"
      using Cons.prems(1) Suc by (simp add: slice_def)
    moreover have "\<forall>k'<n. slice s k' (k' + 2) \<noteq> str ''*/''"
    proof (intro allI impI)
      fix k' assume "k' < n"
      then show "slice s k' (k' + 2) \<noteq> str ''*/''"
        using Cons.prems(2)[rule_format, of "Suc k'"] Suc by (simp add: slice_def)
    qed
    ultimately show ?thesis
      using Cons.IH[of n] Suc by simp
  qed
qed

lemma header_match_first:
  assumes "slice content 0 3 = str ''/**''" and "3 \<le> k"
    and "slice content k (k + 2) = str ''*/''"
    and "\<forall>k'. 3 \<le> k' \<and> k' < k \<longrightarrow> slice content k' (k' + 2) \<noteq> str ''*/''"
  shows "header_match content = Some (take (k + 2) content) \<and> k + 2 \<le> length content"
proof -
  let ?s = "drop 3 content"
  have sh: "slice ?s j (j + 2) = slice content (j + 3) (j + 3 + 2)" for j
    by (simp add: slice_def add.commute)
  have a: "slice ?s (k - 3) (k - 3 + 2) = str ''*/''"
    using assms(2,3) sh[of "k - 3"] by simp
  have b: "\<forall>k'<k - 3. slice ?s k' (k' + 2) \<noteq> str ''*/''"
  proof (intro allI impI)
    fix k' assume "k' < k - 3"
    then have "3 \<le> k' + 3 \<and> k' + 3 < k" by arith
    then have "slice content (k' + 3) (k' + 3 + 2) \<noteq> str ''*/''"
      using assms(4) by blast
    then show "slice ?s k' (k' + 2) \<noteq> str ''*/''"
      unfolding sh .
  qed
  have "lazy_close ?s = Some (k - 3 + 2)"
    using a b by (rule lazy_close_first)
  moreover have "3 + (k - 3 + 2) = k + 2"
    using assms(2) by arith
  ultimately have h: "header_match content = Some (take (k + 2) content)"
    using assms(1) by (simp add: header_match_def slice_def)
  have "k + 2 \<le> length content"
    using assms(3) by (rule slice_full) simp_all
  with h show ?thesis
    by simp
qed

lemma lazy_close_None:
  "(\<forall>k. slice s k (k + 2) \<noteq> str ''*/'') \<Longrightarrow> lazy_close s = None"
proof (induction s)
  case Nil
  show ?case by simp
next
  case (Cons c s)
  have "slice (c # s) 0 2 \<noteq> str ''*/''"
    using Cons.prems[rule_format, of 0] by simp
  moreover have "\<forall>k. slice s k (k + 2) \<noteq> str ''*/''"
  proof
    fix k
    show "slice s k (k + 2) \<noteq> str ''*/''"
      using Cons.prems[rule_format, of "Suc k"] by (simp add: slice_def)
  qed
  ultimately show ?case
    using Cons.IH by simp
qed

lemma header_match_spec:
  "header_match content = map_option (\<lambda>k. take (k + 2) content) (spec_header_end content)"
proof (cases "take 3 content = str ''/**''")
  case False
  then show ?thesis
    by (simp add: header_match_def spec_header_end_def slice_def)
next
  case True
  then have o: "slice content 0 3 = str ''/**''"
    by (simp add: slice_def)
  let ?P = "\<lambda>k. take 2 (drop k content) = str ''*/''"
  have P: "?P k \<longleftrightarrow> slice content k (k + 2) = str ''*/''" for k
    by (simp add: slice_def)
  show ?thesis
  proof (cases "find ?P [3..<length content]")
    case None
    then have n: "\<forall>k. 3 \<le> k \<and> k < length content \<longrightarrow> \<not> ?P k"
      by (auto simp: find_None_iff)
    have "\<forall>k. slice (drop 3 content) k (k + 2) \<noteq> str ''*/''"
    proof
      fix k
      show "slice (drop 3 content) k (k + 2) \<noteq> str ''*/''"
      proof (cases "k + 3 < length content")
        case True
        then have "\<not> ?P (k + 3)" using n by simp
        then show ?thesis by (simp add: slice_def add.commute)
      next
        case False
        then show ?thesis by (simp add: slice_def)
      qed
    qed
    then have "lazy_close (drop 3 content) = None"
      by (rule lazy_close_None)
    with None True o show ?thesis
      by (simp add: header_match_def spec_header_end_def)
  next
    case (Some k)
    then obtain i where i: "i < length [3..<length content]" "?P ([3..<length content] ! i)"
      "k = [3..<length content] ! i" "\<forall>j<i. \<not> ?P ([3..<length content] ! j)"
      by (auto simp: find_Some_iff)
    then have k: "k = 3 + i" "3 \<le> k" "k < length content"
      by auto
    have pk: "slice content k (k + 2) = str ''*/''"
      using i(2,3) P by simp
    have first: "\<forall>k'. 3 \<le> k' \<and> k' < k \<longrightarrow> slice content k' (k' + 2) \<noteq> str ''*/''"
    proof (intro allI impI)
      fix k' assume a: "3 \<le> k' \<and> k' < k"
      then have "k' - 3 < i" using k by arith
      then have "\<not> ?P ([3..<length content] ! (k' - 3))"
        using i(4) by blast
      moreover have "[3..<length content] ! (k' - 3) = k'"
        using a k by simp
      ultimately show "slice content k' (k' + 2) \<noteq> str ''*/''"
        using P by simp
    qed
    have "header_match content = Some (take (k + 2) content)"
      using header_match_first[OF o k(2) pk first] by simp
    with Some True show ?thesis
      by (simp add: spec_header_end_def)
  qed
qed

section \<open>Lines of a region\<close>

lemma fold_append_map:
  "fold (\<lambda>line fixed_lines. fixed_lines @ [f line]) ls acc = acc @ map f ls"
  by (induction ls arbitrary: acc) auto

lemma py_split_from_nonempty: "py_split_from sep cur s \<noteq> []"
  by (induction s arbitrary: cur) auto

lemma strip_empty_iff: "strip line = [] \<longleftrightarrow> (\<forall>c\<in>set line. isspace c)"
proof -
  let ?d = "dropWhile isspace line"
  have "strip line = [] \<longleftrightarrow> dropWhile isspace (rev ?d) = []"
    by (simp add: strip_def rstrip_def lstrip_def)
  also have "\<dots> \<longleftrightarrow> (\<forall>c\<in>set ?d. isspace c)"
    unfolding dropWhile_eq_Nil_conv by simp
  also have "\<dots> \<longleftrightarrow> ?d = []"
  proof
    assume a: "\<forall>c\<in>set ?d. isspace c"
    show "?d = []"
    proof (rule ccontr)
      assume n: "?d \<noteq> []"
      then have "\<not> isspace (hd ?d)" by (rule hd_dropWhile)
      moreover have "hd ?d \<in> set ?d" using n by simp
      ultimately show False using a by blast
    qed
  next
    assume e: "?d = []"
    show "\<forall>c\<in>set ?d. isspace c" unfolding e by simp
  qed
  also have "\<dots> \<longleftrightarrow> (\<forall>c\<in>set line. isspace c)"
    by (rule dropWhile_eq_Nil_conv)
  finally show ?thesis .
qed

lemma indent_takeWhile:
  "slice line 0 (length line - length (lstrip line)) = takeWhile isspace line"
proof -
  have "length (takeWhile isspace line) + length (dropWhile isspace line) = length line"
    by (metis length_append takeWhile_dropWhile_id)
  then have "length line - length (lstrip line) = length (takeWhile isspace line)"
    by (simp add: lstrip_def)
  then show ?thesis
    by (simp add: slice_def takeWhile_eq_take[symmetric])
qed

lemma convert_line_eq:
  "convert_line line =
     (if \<forall>c\<in>set line. isspace c then line
      else takeWhile isspace line @ str ''// '' @ dropWhile isspace line)"
proof (cases "\<forall>c\<in>set line. isspace c")
  case True
  then show ?thesis
    by (simp add: convert_line_def strip_empty_iff)
next
  case False
  then have n: "strip line \<noteq> []" "lstrip line \<noteq> []"
    by (auto simp: strip_empty_iff lstrip_def dropWhile_eq_Nil_conv)
  have "convert_line line = takeWhile isspace line @ str ''// '' @ lstrip line"
    using n by (simp add: convert_line_def indent_takeWhile Let_def)
  then show ?thesis
    using False by (auto simp: lstrip_def)
qed

lemma takeWhile_convert_line: "takeWhile isspace (convert_line line) = takeWhile isspace line"
proof (cases "\<forall>c\<in>set line. isspace c")
  case True
  then show ?thesis by (simp add: convert_line_eq)
next
  case False
  have "\<not> isspace 47" by (simp add: isspace_def)
  moreover have "\<forall>c\<in>set (takeWhile isspace line). isspace c"
    by (auto dest: set_takeWhileD)
  ultimately show ?thesis
    using False by (simp add: convert_line_eq takeWhile_append2 str_def)
qed

lemma replace_block_eq:
  "replace_block interior =
     py_join [10] ((takeWhile isspace (hd (py_split 10 interior)) @ banner) #
       map convert_line (py_split 10 interior))"
proof -
  obtain l ls where ls: "py_split 10 interior = l # ls"
    using py_split_from_nonempty[of 10 "[]" interior] by (cases "py_split 10 interior") (auto simp: py_split_def)
  show ?thesis
    by (simp add: replace_block_def fold_append_map ls indent_takeWhile takeWhile_convert_line Let_def)
qed

lemma py_split_from_no_sep: "sep \<notin> set p \<Longrightarrow> py_split_from sep cur p = [cur @ p]"
  by (induction p arbitrary: cur) auto

lemma py_split_from_sep:
  "sep \<notin> set p \<Longrightarrow> py_split_from sep cur (p @ sep # s) = (cur @ p) # py_split_from sep [] s"
  by (induction p arbitrary: cur) auto

lemma py_split_join:
  "ls \<noteq> [] \<Longrightarrow> \<forall>l\<in>set ls. sep \<notin> set l \<Longrightarrow> py_split sep (py_join [sep] ls) = ls"
proof (induction "[sep]" ls rule: py_join.induct)
  case 1
  then show ?case by simp
next
  case (2 x)
  then show ?case by (simp add: py_split_def py_split_from_no_sep)
next
  case (3 x y ys)
  then show ?case by (simp add: py_split_def py_split_from_sep)
qed

lemma py_split_from_lines:
  "sep \<notin> set cur \<Longrightarrow> l \<in> set (py_split_from sep cur s) \<Longrightarrow> sep \<notin> set l"
proof (induction s arbitrary: cur)
  case Nil
  then show ?case by simp
next
  case (Cons c s)
  show ?case
  proof (cases "c = sep")
    case True
    with Cons.prems have "l = cur \<or> l \<in> set (py_split_from sep [] s)"
      by simp
    then show ?thesis
      using Cons.prems(1) Cons.IH[of "[]"] by auto
  next
    case False
    with Cons.prems have "l \<in> set (py_split_from sep (cur @ [c]) s)"
      by simp
    moreover have "sep \<notin> set (cur @ [c])"
      using False Cons.prems(1) by simp
    ultimately show ?thesis
      by (rule Cons.IH[rotated])
  qed
qed

lemma convert_line_no_newline: "10 \<notin> set line \<Longrightarrow> 10 \<notin> set (convert_line line)"
  by (auto simp: convert_line_eq str_def dest: set_takeWhileD set_dropWhileD)

lemma banner_no_newline: "10 \<notin> set banner"
  by (simp add: banner_def str_def)

lemma replace_block_lines:
  "py_split 10 (replace_block interior) =
     (takeWhile isspace (hd (py_split 10 interior)) @ banner) #
       map convert_line (py_split 10 interior)"
proof -
  let ?lines = "py_split 10 interior"
  have n: "\<forall>l\<in>set ?lines. 10 \<notin> set l"
    unfolding py_split_def using py_split_from_lines[of 10 "[]"] by auto
  have "?lines \<noteq> []"
    by (simp add: py_split_def py_split_from_nonempty)
  then have "hd ?lines \<in> set ?lines" by simp
  then have "10 \<notin> set (hd ?lines)" using n by blast
  then have "10 \<notin> set (takeWhile isspace (hd ?lines) @ banner)"
    using banner_no_newline by (auto dest: set_takeWhileD)
  moreover have "\<forall>l\<in>set (map convert_line ?lines). 10 \<notin> set l"
    using n by (auto simp: convert_line_no_newline)
  ultimately show ?thesis
    unfolding replace_block_eq by (intro py_split_join) auto
qed

section \<open>Percentages and verdicts\<close>

lemma ratio_pct_cases:
  "ratio_pct a b = Inl ZeroDivisionError \<Longrightarrow> False"
  by (auto simp: ratio_pct_def py_truediv_def Let_def split: if_splits sum.splits)

lemma ratio_pct_value:
  "ratio_pct a b = Inr p \<Longrightarrow>
     p = (if 0 < b then
            PyFloat (float_mul (Finite (round_binary64 (of_int a / of_int b))) (Finite 100))
          else PyInt 0)"
  by (auto simp: ratio_pct_def py_truediv_def Let_def split: if_splits sum.splits)

lemma extract_metrics_fields:
  assumes "extract_metrics report = Inr m"
  shows "ratio_pct (duplicated_lines m) (total_lines m) = Inr (line_duplication_pct m)"
    and "ratio_pct (duplicated_tokens m) (total_tokens m) = Inr (token_duplication_pct m)"
  using assms
  by (auto simp: extract_metrics_def Let_def split: prod.splits sum.splits)

lemma extract_metrics_error:
  "extract_metrics report = Inl e \<Longrightarrow> e = OverflowError"
  by (cases e) (auto simp: extract_metrics_def Let_def split: prod.splits sum.splits dest: ratio_pct_cases)

lemma compare_metrics_Inr:
  assumes "compare_metrics baseline final = Inr out"
  shows "ratio_pct (duplicated_tokens baseline - duplicated_tokens final) (duplicated_tokens baseline) =
      Inr (token_reduction_pct out)"
    and "token_pct_verdict out =
      verdict (py_le (token_duplication_pct final) (PyFloat (Finite (45 / 10))))"
    and "clones_verdict out = verdict (total_clones final \<le> 100)"
    and "reduction_verdict out = verdict (py_ge (token_reduction_pct out) (PyInt 40))"
    and "all_pass out \<longleftrightarrow>
      py_le (token_duplication_pct final) (PyFloat (Finite (45 / 10))) \<and>
      total_clones final \<le> 100 \<and> py_ge (token_reduction_pct out) (PyInt 40)"
  using assms
  by (auto simp: compare_metrics_def Let_def split: sum.splits)

lemma format_f_error: "format_f x \<noteq> Inl ZeroDivisionError"
  by (cases x) (auto simp: int_to_float_def Let_def split: sum.splits)

lemma format_all_error: "format_all xs \<noteq> Inl ZeroDivisionError"
  by (induction xs) (auto simp: format_all.simps format_f_error split: sum.splits)

lemma compare_metrics_error:
  "compare_metrics baseline final \<noteq> Inl ZeroDivisionError"
proof -
  have s: "py_sub a b \<noteq> Inl ZeroDivisionError" for a b
    by (cases a; cases b) (auto simp: int_to_float_def Let_def split: sum.splits)
  show ?thesis
    using s format_all_error
    by (auto simp: compare_metrics_def Let_def split: sum.splits dest: ratio_pct_cases)
qed

lemma verdict_PASS: "verdict p = ''PASS'' \<longleftrightarrow> p"
  by (simp add: verdict_def)

lemma verdict_FAIL: "verdict p = ''FAIL'' \<longleftrightarrow> \<not> p"
  by (simp add: verdict_def)

subsection \<open>No overflow within the range\<close>

lemma bitlen_bounds:
  "0 < n \<Longrightarrow> 1 \<le> bitlen n \<and> 2 ^ nat (bitlen n - 1) \<le> n \<and> n < 2 ^ nat (bitlen n)"
proof (induction n rule: bitlen.induct)
  case (1 n)
  note unf = bitlen.simps[of n]
  show ?case
  proof (cases "0 < n div 2")
    case False
    with 1(2) have n: "n = 1" by auto
    have "bitlen (n div 2) = 0"
      using False by (subst bitlen.simps) simp
    with n show ?thesis
      unfolding unf by simp
  next
    case True
    let ?m = "n div 2"
    from 1(1)[OF 1(2) True]
    have ih: "1 \<le> bitlen ?m" "2 ^ nat (bitlen ?m - 1) \<le> ?m" "?m < 2 ^ nat (bitlen ?m)"
      by simp_all
    have b: "bitlen n = 1 + bitlen ?m"
      using 1(2) unfolding unf by simp
    have s: "nat (bitlen ?m) = Suc (nat (bitlen ?m - 1))"
      using ih(1) by simp
    have lo: "2 ^ nat (bitlen ?m) \<le> n"
    proof -
      have "2 * 2 ^ nat (bitlen ?m - 1) \<le> 2 * ?m"
        using ih(2) by simp
      also have "\<dots> \<le> n" by simp
      finally show ?thesis unfolding s by simp
    qed
    have hi: "n < 2 * 2 ^ nat (bitlen ?m)"
    proof -
      have "?m + 1 \<le> 2 ^ nat (bitlen ?m)"
        using ih(3) by simp
      then have "2 * (?m + 1) \<le> 2 * 2 ^ nat (bitlen ?m)"
        by simp
      moreover have "n < 2 * (?m + 1)" by simp
      ultimately show ?thesis by linarith
    qed
    have "nat (1 + bitlen ?m - 1) = nat (bitlen ?m)" "nat (1 + bitlen ?m) = Suc (nat (bitlen ?m))"
      using ih(1) by simp_all
    with lo hi ih(1) show ?thesis
      unfolding b by simp
  qed
qed

lemma ilog2_le:
  assumes "q \<noteq> 0"
  shows "2 powi (ilog2 q) \<le> \<bar>q\<bar>"
proof -
  obtain a b where ab: "quotient_of \<bar>q\<bar> = (a, b)"
    by (cases "quotient_of \<bar>q\<bar>")
  have bp: "0 < b"
    using ab by (rule quotient_of_denom_pos)
  have qe: "\<bar>q\<bar> = of_int a / of_int b"
    using ab by (rule quotient_of_div)
  have "0 < \<bar>q\<bar>" using assms by simp
  then have ap: "0 < a"
    unfolding qe using bp by (simp add: zero_less_divide_iff)
  let ?k = "bitlen a - bitlen b"
  show ?thesis
  proof (cases "2 powi ?k \<le> \<bar>q\<bar>")
    case True
    then show ?thesis
      by (simp add: ilog2_def ab Let_def)
  next
    case False
    then have i: "ilog2 q = ?k - 1"
      by (simp add: ilog2_def ab Let_def)
    note ba = bitlen_bounds[OF ap] and bb = bitlen_bounds[OF bp]
    have lo: "(2::rat) ^ nat (bitlen a - 1) \<le> of_int a"
    proof -
      have "(of_int (2 ^ nat (bitlen a - 1)) :: rat) \<le> of_int a"
        using ba by (simp only: of_int_le_iff)
      then show ?thesis by simp
    qed
    have hi: "of_int b \<le> (2::rat) ^ nat (bitlen b)"
    proof -
      have "(of_int b :: rat) \<le> of_int (2 ^ nat (bitlen b))"
        using bb by (simp only: of_int_le_iff) simp
      then show ?thesis by simp
    qed
    have ee: "?k - 1 = int (nat (bitlen a - 1)) - int (nat (bitlen b))"
      using ba bb by auto
    have "2 powi (?k - 1) = (2::rat) powi (int (nat (bitlen a - 1)) - int (nat (bitlen b)))"
      by (simp only: ee)
    also have "\<dots> = 2 powi int (nat (bitlen a - 1)) / 2 powi int (nat (bitlen b))"
      by (rule power_int_diff) simp
    also have "\<dots> = 2 ^ nat (bitlen a - 1) / 2 ^ nat (bitlen b)"
      by (simp only: power_int_of_nat)
    also have "\<dots> \<le> of_int a / of_int b"
      using lo hi bp ap by (intro frac_le) simp_all
    finally show ?thesis
      unfolding i qe .
  qed
qed

lemma round_half_even_bound: "\<bar>of_int (round_half_even x) :: rat\<bar> \<le> \<bar>x\<bar> + 1"
proof -
  have "round_half_even x = \<lfloor>x\<rfloor> \<or> round_half_even x = \<lfloor>x\<rfloor> + 1"
    by (simp add: round_half_even_def Let_def)
  moreover have "of_int \<lfloor>x\<rfloor> \<le> x" "x < of_int \<lfloor>x\<rfloor> + 1"
    by linarith+
  ultimately show ?thesis
    by (auto simp: abs_if split: if_splits) linarith+
qed

lemma round_binary64_bound: "\<bar>round_binary64 q\<bar> \<le> 2 * \<bar>q\<bar> + 1"
proof (cases "q = 0")
  case True
  then show ?thesis by (simp add: round_binary64_def)
next
  case False
  define e where "e = max (ilog2 q - 52) (- 1074)"
  define P :: rat where "P = 2 powi e"
  have Pp: "0 < P" by (simp add: P_def)
  have r: "round_binary64 q = of_int (round_half_even (q / P)) * P"
    using False by (simp add: round_binary64_def Let_def e_def P_def)
  have "\<bar>round_binary64 q\<bar> = \<bar>of_int (round_half_even (q / P)) :: rat\<bar> * P"
    unfolding r using Pp by (simp add: abs_mult)
  also have "\<dots> \<le> (\<bar>q / P\<bar> + 1) * P"
    using round_half_even_bound[of "q / P"] Pp by (intro mult_right_mono) simp_all
  also have "\<dots> = \<bar>q\<bar> + P"
    using Pp by (simp add: algebra_simps abs_divide)
  finally have b: "\<bar>round_binary64 q\<bar> \<le> \<bar>q\<bar> + P" .
  have "P \<le> \<bar>q\<bar> + 1"
  proof (cases "ilog2 q - 52 \<le> - 1074")
    case True
    then have "e = - 1074" by (simp add: e_def)
    then have "P \<le> 2 powi 0"
      unfolding P_def by (intro power_int_increasing) simp_all
    then show ?thesis by simp
  next
    case False
    then have "e = ilog2 q - 52" by (simp add: e_def)
    then have "P \<le> 2 powi (ilog2 q)"
      unfolding P_def by (intro power_int_increasing) simp_all
    also have "\<dots> \<le> \<bar>q\<bar>"
      using \<open>q \<noteq> 0\<close> by (rule ilog2_le)
    finally show ?thesis by simp
  qed
  with b show ?thesis by simp
qed

lemma no_overflow:
  assumes "\<bar>q\<bar> \<le> 2 * of_int count_bound"
  shows "\<not> overflows (round_binary64 q)"
proof
  let ?r = "round_binary64 q"
  assume "overflows ?r"
  then have n: "?r \<noteq> 0" and l: "1024 \<le> ilog2 ?r"
    by (simp_all add: overflows_def)
  have c: "(of_int count_bound :: rat) = 2 ^ 1000"
    unfolding count_bound_def by (simp only: of_int_power of_int_numeral)
  have "(2::rat) powi 1024 \<le> 2 powi (ilog2 ?r)"
    using l by (intro power_int_increasing) simp_all
  also have "\<dots> \<le> \<bar>?r\<bar>"
    using n by (rule ilog2_le)
  also have "\<dots> \<le> 2 * \<bar>q\<bar> + 1"
    by (rule round_binary64_bound)
  also have "\<dots> \<le> 2 * (2 * 2 ^ 1000) + 1"
    using assms unfolding c by simp
  also have "\<dots> = 2 ^ 1002 + (1::rat)"
    by simp
  also have "\<dots> < 2 ^ 1002 + 2 ^ 1002"
    by (intro add_strict_left_mono one_less_power) simp_all
  also have "\<dots> = (2::rat) ^ 1003"
    by simp
  also have "\<dots> \<le> 2 ^ 1024"
    by (intro power_increasing) simp_all
  finally show False
    by simp
qed

lemma count_bound_pos: "0 \<le> count_bound"
  unfolding count_bound_def by (rule zero_le_power) simp

lemma py_truediv_total:
  assumes "b \<noteq> 0" and "in_range a"
  shows "py_truediv a b = Inr (Finite (round_binary64 (of_int a / of_int b)))"
proof -
  have "1 \<le> \<bar>b\<bar>"
    using assms(1) by simp
  then have "(of_int 1 :: rat) \<le> of_int \<bar>b\<bar>"
    by (simp only: of_int_le_iff)
  then have b1: "1 \<le> \<bar>of_int b :: rat\<bar>"
    by simp
  have "\<bar>of_int a / of_int b :: rat\<bar> = \<bar>of_int a\<bar> / \<bar>of_int b\<bar>"
    by (rule abs_divide)
  also have "\<dots> \<le> \<bar>of_int a\<bar> / 1"
    using b1 by (intro divide_left_mono) simp_all
  also have "\<dots> = of_int \<bar>a\<bar>"
    by simp
  also have "\<dots> \<le> of_int count_bound"
    using assms(2) unfolding in_range_def by (simp only: of_int_le_iff)
  also have "\<dots> \<le> 2 * of_int count_bound"
    using count_bound_pos by simp
  finally have "\<bar>of_int a / of_int b :: rat\<bar> \<le> 2 * of_int count_bound" .
  then have "\<not> overflows (round_binary64 (of_int a / of_int b))"
    by (rule no_overflow)
  with assms(1) show ?thesis
    by (simp add: py_truediv_def Let_def)
qed

lemma ratio_pct_total:
  assumes "in_range a"
  shows "\<exists>p. ratio_pct a b = Inr p"
  using py_truediv_total[OF _ assms, of b] by (auto simp: ratio_pct_def)

lemma int_to_float_total:
  assumes "\<bar>n\<bar> \<le> 2 * count_bound"
  shows "\<exists>x. int_to_float n = Inr x"
proof -
  have "(of_int \<bar>n\<bar> :: rat) \<le> of_int (2 * count_bound)"
    using assms by (simp only: of_int_le_iff)
  then have "\<bar>of_int n :: rat\<bar> \<le> 2 * of_int count_bound"
    by simp
  then have "\<not> overflows (round_binary64 (of_int n))"
    by (rule no_overflow)
  then show ?thesis
    by (simp add: int_to_float_def Let_def)
qed

lemma format_f_total:
  assumes "\<And>n. x = PyInt n \<Longrightarrow> \<bar>n\<bar> \<le> 2 * count_bound"
  shows "format_f x = Inr ()"
proof (cases x)
  case (PyInt n)
  then obtain y where "int_to_float n = Inr y"
    using int_to_float_total[of n] assms by blast
  with PyInt show ?thesis by simp
next
  case (PyFloat y)
  then show ?thesis by simp
qed

lemma format_f_in_range:
  assumes "num_in_range x"
  shows "format_f x = Inr ()"
proof (rule format_f_total)
  fix n assume "x = PyInt n"
  with assms have "\<bar>n\<bar> \<le> count_bound"
    by (simp add: in_range_def)
  then show "\<bar>n\<bar> \<le> 2 * count_bound"
    using count_bound_pos by linarith
qed

lemma format_all_total: "(\<And>x. x \<in> set xs \<Longrightarrow> format_f x = Inr ()) \<Longrightarrow> format_all xs = Inr ()"
  by (induction xs) (auto simp: format_all.simps)

lemma ratio_pct_in_range: "ratio_pct a b = Inr p \<Longrightarrow> num_in_range p"
  using count_bound_pos
  by (auto simp: ratio_pct_def in_range_def split: if_splits sum.splits)

lemma py_sub_total:
  assumes "num_in_range a" and "num_in_range b"
  shows "\<exists>r. py_sub a b = Inr r \<and> format_f r = Inr ()"
proof (cases a)
  case (PyInt m)
  note a = PyInt
  show ?thesis
  proof (cases b)
    case (PyInt n)
    have "\<bar>m\<bar> \<le> count_bound" "\<bar>n\<bar> \<le> count_bound"
      using assms a PyInt by (simp_all add: in_range_def)
    then have "\<bar>m - n\<bar> \<le> 2 * count_bound"
      by linarith
    then have "format_f (PyInt (m - n)) = Inr ()"
      by (intro format_f_total) simp
    with a PyInt show ?thesis by simp
  next
    case (PyFloat y)
    have "\<bar>m\<bar> \<le> count_bound"
      using assms(1) a by (simp add: in_range_def)
    then have "\<bar>m\<bar> \<le> 2 * count_bound"
      using count_bound_pos by linarith
    then obtain x where "int_to_float m = Inr x"
      using int_to_float_total[of m] by blast
    with a PyFloat show ?thesis by simp
  qed
next
  case (PyFloat x)
  note a = PyFloat
  show ?thesis
  proof (cases b)
    case (PyInt n)
    have "\<bar>n\<bar> \<le> count_bound"
      using assms(2) PyInt by (simp add: in_range_def)
    then have "\<bar>n\<bar> \<le> 2 * count_bound"
      using count_bound_pos by linarith
    then obtain y where "int_to_float n = Inr y"
      using int_to_float_total[of n] by blast
    with a PyInt show ?thesis by simp
  next
    case (PyFloat y)
    with a show ?thesis by simp
  qed
qed

lemma extract_metrics_total:
  assumes "fold add_format (formats (statistics report)) (0, 0, 0, 0, 0) = (nl, nt, dl, dt, nc)"
    and "in_range dl" and "in_range dt"
  shows "\<exists>m. extract_metrics report = Inr m"
proof -
  obtain p where p: "ratio_pct dl nl = Inr p"
    using ratio_pct_total[OF assms(2)] by blast
  obtain q where q: "ratio_pct dt nt = Inr q"
    using ratio_pct_total[OF assms(3)] by blast
  show ?thesis
    by (simp add: extract_metrics_def Let_def assms(1) p q)
qed

lemma compare_metrics_total:
  assumes "in_range (duplicated_lines baseline - duplicated_lines final)"
    and "in_range (duplicated_tokens baseline - duplicated_tokens final)"
    and "in_range (total_clones baseline - total_clones final)"
    and "num_in_range (line_duplication_pct baseline)" and "num_in_range (line_duplication_pct final)"
    and "num_in_range (token_duplication_pct baseline)" and "num_in_range (token_duplication_pct final)"
  shows "\<exists>out. compare_metrics baseline final = Inr out"
proof -
  have f1: "format_all [line_duplication_pct baseline, token_duplication_pct baseline,
      line_duplication_pct final, token_duplication_pct final] = Inr ()"
    using assms(4-7) by (intro format_all_total) (auto simp: format_f_in_range)
  obtain a where a: "ratio_pct (duplicated_lines baseline - duplicated_lines final)
      (duplicated_lines baseline) = Inr a"
    using ratio_pct_total[OF assms(1)] by blast
  obtain b where b: "ratio_pct (duplicated_tokens baseline - duplicated_tokens final)
      (duplicated_tokens baseline) = Inr b"
    using ratio_pct_total[OF assms(2)] by blast
  obtain c where c: "ratio_pct (total_clones baseline - total_clones final)
      (total_clones baseline) = Inr c"
    using ratio_pct_total[OF assms(3)] by blast
  obtain d where d: "py_sub (line_duplication_pct baseline) (line_duplication_pct final) = Inr d"
    and fd: "format_f d = Inr ()"
    using py_sub_total[OF assms(4,5)] by auto
  obtain e where e: "py_sub (token_duplication_pct baseline) (token_duplication_pct final) = Inr e"
    and fe: "format_f e = Inr ()"
    using py_sub_total[OF assms(6,7)] by auto
  have f2: "format_all [a, b, c, d, e] = Inr ()"
    using ratio_pct_in_range[OF a] ratio_pct_in_range[OF b] ratio_pct_in_range[OF c] fd fe
    by (intro format_all_total) (auto simp: format_f_in_range)
  show ?thesis
    by (simp add: compare_metrics_def Let_def f1 a b c d e f2)
qed

lemma extract_metrics_pct_in_range:
  assumes "extract_metrics report = Inr m"
  shows "num_in_range (line_duplication_pct m)" and "num_in_range (token_duplication_pct m)"
  using extract_metrics_fields[OF assms] by (auto dest: ratio_pct_in_range)

section \<open>The claims\<close>

text \<open>
  Claim C7. A buffer with no occurrence of the two-character open marker \<open>/*\<close> is
  returned unchanged, character for character, by \<open>fix_multiline_comments\<close> and by
  the header skip of \<open>fix_file\<close> followed by it; \<open>fix_file\<close> then writes the file
  back as it was.
\<close>

theorem no_open_marker_identity:
  assumes "\<forall>i. slice content i (i + 2) \<noteq> str ''/*''"
  shows "fix_multiline_comments content = content \<and> fixed_content content = content \<and>
    (files filepath = Some content \<longrightarrow> fix_file files filepath = (True, files))"
proof -
  have f: "fix_multiline_comments content = content"
    using assms by (rule fix_no_open)
  have "slice content 0 2 \<noteq> str ''/*''"
    using assms[rule_format, of 0] by simp
  then have "header_match content = None"
    using header_match_open[of content] by (cases "header_match content") auto
  then have g: "fixed_content content = content"
    using f by (simp add: fixed_content_def)
  show ?thesis
    using f g by (auto simp: fix_file_def map_upd_triv)
qed

theorem no_open_marker_identity_witness:
  "(\<forall>i. slice (str ''a */ b / * c'') i (i + 2) \<noteq> str ''/*'') \<and>
   fix_multiline_comments (str ''a */ b / * c'') = str ''a */ b / * c'' \<and>
   fixed_content (str ''a */ b / * c'') = str ''a */ b / * c''"
proof -
  have b: "\<forall>i\<in>set [0..<13]. slice (str ''a */ b / * c'') i (i + 2) \<noteq> str ''/*''"
    by code_simp
  have h: "\<forall>i. slice (str ''a */ b / * c'') i (i + 2) \<noteq> str ''/*''"
  proof
    fix i :: nat
    show "slice (str ''a */ b / * c'') i (i + 2) \<noteq> str ''/*''"
    proof (cases "i < 13")
      case True
      then show ?thesis using b by simp
    next
      case False
      then show ?thesis by (simp add: slice_def str_def)
    qed
  qed
  show ?thesis
    using h no_open_marker_identity[OF h, of Map.empty "''f''"] by simp
qed

text \<open>
  Claim C4. When the outer loop stands at an open marker whose depth counter does not
  come back to zero before the end of the buffer, it emits the one character at that
  position, a slash, and the rest of its output is the normal scan of the text one
  position further. \<open>/* never closes\<close> is returned unchanged. The loop reads
  \<open>content[i]\<close> below the length of the buffer only, so no error is raised.
\<close>

theorem unterminated_open_marker:
  "(i + 1 < length content \<and> slice content i (i + 2) = str ''/*'' \<and>
      snd (scan_block content (i + 2) 1) \<noteq> 0 \<longrightarrow>
    content ! i = 47 \<and>
    rewrite_loop content i result = result @ [content ! i] @ fix_multiline_comments (drop (i + 1) content)) \<and>
   fix_multiline_comments (str ''/* never closes'') = str ''/* never closes'' \<and>
   fixed_content (str ''/* never closes'') = str ''/* never closes''"
proof (intro conjI impI)
  assume a: "i + 1 < length content \<and> slice content i (i + 2) = str ''/*'' \<and>
      snd (scan_block content (i + 2) 1) \<noteq> 0"
  then show "content ! i = 47"
    using slice_two[of i content] by simp
  have "rewrite_loop content i result = rewrite_loop content (i + 1) (result @ [content ! i])"
    using a by (intro rewrite_loop_unterminated) simp_all
  also have "\<dots> = (result @ [content ! i]) @ fix_multiline_comments (drop (i + 1) content)"
    by (rule rewrite_loop_drop)
  finally show "rewrite_loop content i result =
      result @ [content ! i] @ fix_multiline_comments (drop (i + 1) content)"
    by simp
next
  show "fix_multiline_comments (str ''/* never closes'') = str ''/* never closes''"
    by code_simp
  show "fixed_content (str ''/* never closes'') = str ''/* never closes''"
    by code_simp
qed

theorem unterminated_open_marker_witness:
  "2 + 1 < length (str ''ab/* x'') \<and> slice (str ''ab/* x'') 2 (2 + 2) = str ''/*'' \<and>
     snd (scan_block (str ''ab/* x'') (2 + 2) 1) \<noteq> 0 \<and>
   rewrite_loop (str ''ab/* x'') 2 (str ''ab'') =
     str ''ab'' @ [str ''ab/* x'' ! 2] @ fix_multiline_comments (drop (2 + 1) (str ''ab/* x''))"
proof -
  have p: "2 + 1 < length (str ''ab/* x'') \<and> slice (str ''ab/* x'') 2 (2 + 2) = str ''/*'' \<and>
     snd (scan_block (str ''ab/* x'') (2 + 2) 1) \<noteq> 0"
    by code_simp
  then show ?thesis
    using unterminated_open_marker[of 2 "str ''ab/* x''" "str ''ab''"] by blast
qed

text \<open>
  Claim C2. When the buffer starts with \<open>/**\<close> and a close marker \<open>*/\<close> begins at an
  index \<open>k\<close> after these three characters, with no close marker beginning between
  index 3 and \<open>k\<close>, the header is the prefix that ends with that close marker, whatever
  open markers it contains: the output starts with this prefix unchanged, and the rest
  of the output is the scan of the text after the prefix alone.
\<close>

theorem header_kept:
  assumes "slice content 0 3 = str ''/**''" and "3 \<le> k"
    and "slice content k (k + 2) = str ''*/''"
    and "\<forall>k'. 3 \<le> k' \<and> k' < k \<longrightarrow> slice content k' (k' + 2) \<noteq> str ''*/''"
  shows "header_match content = Some (take (k + 2) content) \<and>
    fixed_content content = take (k + 2) content @ fix_multiline_comments (drop (k + 2) content)"
proof -
  have h: "header_match content = Some (take (k + 2) content)"
    and l: "k + 2 \<le> length content"
    using header_match_first[OF assms] by simp_all
  from l have "length (take (k + 2) content) = k + 2"
    by simp
  then have "fixed_content content =
      take (k + 2) content @ fix_multiline_comments (drop (k + 2) content)"
    unfolding fixed_content_def h by (simp add: Let_def del: length_take)
  with h show ?thesis
    by simp
qed

theorem header_kept_witness:
  "slice (str ''/** a /* b */ c */ /* d */'') 0 3 = str ''/**'' \<and> (3::nat) \<le> 11 \<and>
   slice (str ''/** a /* b */ c */ /* d */'') 11 (11 + 2) = str ''*/'' \<and>
   fixed_content (str ''/** a /* b */ c */ /* d */'') =
     str ''/** a /* b */'' @ fix_multiline_comments (str '' c */ /* d */'')"
proof -
  let ?c = "str ''/** a /* b */ c */ /* d */''"
  have a: "slice ?c 0 3 = str ''/**''" and b: "(3::nat) \<le> 11"
    and c: "slice ?c 11 (11 + 2) = str ''*/''"
    by code_simp+
  have bnd: "\<forall>k'\<in>set [3..<11]. slice ?c k' (k' + 2) \<noteq> str ''*/''"
    by code_simp
  have d: "\<forall>k'. 3 \<le> k' \<and> k' < 11 \<longrightarrow> slice ?c k' (k' + 2) \<noteq> str ''*/''"
  proof (intro allI impI)
    fix k' :: nat
    assume "3 \<le> k' \<and> k' < 11"
    then have "k' \<in> set [3..<11]" by (simp only: set_upt atLeastLessThan_iff)
    then show "slice ?c k' (k' + 2) \<noteq> str ''*/''"
      using bnd by blast
  qed
  have e: "take (11 + 2) ?c = str ''/** a /* b */''" "drop (11 + 2) ?c = str '' c */ /* d */''"
    by code_simp+
  show ?thesis
    using a b c header_kept[OF a b c d] unfolding e by blast
qed

text \<open>
  Claim C3. When the text after an open marker reads as \<open>interior\<close>, the close marker
  that brings the depth back to zero, and \<open>rest\<close>, with every open marker in between
  adding one to the depth and every close marker taking one away, then this close
  marker is the only one that ends the region, the inner loop stops just after it with
  depth zero, and the outer loop replaces the whole span by the rewriting of
  \<open>interior\<close>, inner markers included, and goes on with \<open>rest\<close>.
\<close>

theorem nested_region_single_unit:
  assumes "closes 1 s interior rest"
  shows "s = interior @ str ''*/'' @ rest \<and>
    (\<forall>interior' rest'. closes 1 s interior' rest' \<longrightarrow> interior' = interior \<and> rest' = rest) \<and>
    scan_block (pre @ str ''/*'' @ s) (length pre + 2) 1 = (length pre + 2 + length interior + 2, 0) \<and>
    rewrite_loop (pre @ str ''/*'' @ s) (length pre) result =
      result @ replace_block interior @ fix_multiline_comments rest"
proof -
  let ?c = "pre @ str ''/*'' @ s"
  have r: "region_end 1 s = Some (interior, rest)"
    using assms by (rule closes_region_end)
  then have s: "s = interior @ str ''*/'' @ rest"
    by (rule region_end_split)
  have u: "interior' = interior \<and> rest' = rest" if "closes 1 s interior' rest'" for interior' rest'
    using closes_region_end[OF that] r by simp
  have "drop (length pre + 2) ?c = s" by simp
  with scan_block_region[where depth = 1 and j = "length pre + 2" and s = ?c] r
  have sb: "scan_block ?c (length pre + 2) 1 = (length pre + 2 + length interior + 2, 0)"
    by simp
  have "rewrite_loop ?c (length pre) result = result @ fix_multiline_comments (drop (length pre) ?c)"
    by (rule rewrite_loop_drop)
  also have "\<dots> = result @ replace_block interior @ fix_multiline_comments rest"
    using fix_region[OF r] by simp
  finally show ?thesis
    using s u sb by blast
qed

theorem nested_region_single_unit_witness:
  "closes 1 (str '' a /* b */ c */ d'') (str '' a /* b */ c '') (str '' d'') \<and>
   scan_block (str ''x/* a /* b */ c */ d'') (1 + 2) 1 = (1 + 2 + 13 + 2, 0) \<and>
   rewrite_loop (str ''x/* a /* b */ c */ d'') 1 (str ''x'') =
     str ''x'' @ replace_block (str '' a /* b */ c '') @ fix_multiline_comments (str '' d'')"
proof -
  have "region_end 1 (str '' a /* b */ c */ d'') = Some (str '' a /* b */ c '', str '' d'')"
    by code_simp
  then have c: "closes 1 (str '' a /* b */ c */ d'') (str '' a /* b */ c '') (str '' d'')"
    by (rule region_end_closes) simp
  have e: "str ''x'' @ str ''/*'' @ str '' a /* b */ c */ d'' = str ''x/* a /* b */ c */ d''"
    "length (str ''x'') = 1" "length (str '' a /* b */ c '') = 13"
    by (simp_all add: str_def)
  show ?thesis
    using c nested_region_single_unit[OF c, of "str ''x''" "str ''x''"] unfolding e by blast
qed

text \<open>
  Claim C6, as stated: the replacement of a region with an empty interior is the banner
  comment alone, with nothing added before the text that follows the close marker.
  It fails on \<open>/**/x\<close>: a line break stands between the banner and \<open>x\<close>.
\<close>

theorem empty_region_newline_counterexample:
  "fix_multiline_comments (str ''/**/x'') = banner @ [10] @ str ''x'' \<and>
   fix_multiline_comments (str ''/**/x'') \<noteq> banner @ str ''x''"
  by code_simp

text \<open>
  Claim C6, amended. The interior of an empty region splits into one empty line, so
  the replacement is the banner comment followed by one line break: wherever the outer
  loop meets \<open>/**/\<close>, it emits the banner and a line break and goes on after the four
  characters.
\<close>

theorem empty_region_replacement:
  "(slice content i (i + 4) = str ''/**/'' \<longrightarrow>
      rewrite_loop content i result =
        result @ banner @ [10] @ fix_multiline_comments (drop (i + 4) content)) \<and>
   replace_block [] = banner @ [10]"
proof (intro conjI impI)
  show rb: "replace_block [] = banner @ [10]"
    by (simp add: replace_block_def py_split_def convert_line_def strip_def lstrip_def rstrip_def slice_def)
  assume a: "slice content i (i + 4) = str ''/**/''"
  then have len: "i + 4 \<le> length content"
    by (rule slice_full) (simp_all add: str_def)
  have t: "take 4 (drop i content) = [47, 42, 42, 47]"
    using a by (simp add: slice_def str_def)
  have o: "slice content i (i + 2) = str ''/*''"
  proof -
    have "slice content i (i + 2) = take 2 (take 4 (drop i content))"
      by (simp add: slice_def)
    then show ?thesis unfolding t by simp
  qed
  have c: "slice content (i + 2) (i + 2 + 2) = str ''*/''"
  proof -
    have "slice content (i + 2) (i + 2 + 2) = drop 2 (take 4 (drop i content))"
      by (simp add: slice_def drop_take add.commute)
    then show ?thesis unfolding t by simp
  qed
  have "scan_block content (i + 2) 1 = scan_block content (i + 2 + 2) (1 - 1)"
    using len c by (subst scan_block.simps) simp
  then have sb: "scan_block content (i + 2) 1 = (i + 4, 0)"
    by (simp add: scan_block_done)
  have e: "slice content (i + 2) (i + 4 - 2) = []"
    by (simp add: slice_def)
  have "rewrite_loop content i result =
      rewrite_loop content (i + 4) (result @ replace_block (slice content (i + 2) (i + 4 - 2)))"
    using len by (intro rewrite_loop_region[OF _ o sb]) simp
  also have "\<dots> = (result @ replace_block (slice content (i + 2) (i + 4 - 2))) @
      fix_multiline_comments (drop (i + 4) content)"
    by (rule rewrite_loop_drop)
  finally show "rewrite_loop content i result =
      result @ banner @ [10] @ fix_multiline_comments (drop (i + 4) content)"
    unfolding e rb by simp
qed

theorem empty_region_replacement_witness:
  "slice (str ''a/**/b'') 1 (1 + 4) = str ''/**/'' \<and>
   rewrite_loop (str ''a/**/b'') 1 (str ''a'') =
     str ''a'' @ banner @ [10] @ fix_multiline_comments (drop (1 + 4) (str ''a/**/b''))"
proof -
  have a: "slice (str ''a/**/b'') 1 (1 + 4) = str ''/**/''"
    by code_simp
  then show ?thesis
    using empty_region_replacement[of "str ''a/**/b''" 1 "str ''a''"] by blast
qed

text \<open>
  Claim C1, as stated: the text of every unterminated region is copied verbatim. It
  fails on \<open>/* a /* b */\<close>: the depth opened at index 0 never comes back to zero, yet
  the output differs from the input, the inner \<open>/* b */\<close> being rewritten.
\<close>

theorem unterminated_tail_counterexample:
  "snd (scan_block (str ''/* a /* b */'') 2 1) \<noteq> 0 \<and>
   fixed_content (str ''/* a /* b */'') = str ''/* a '' @ replace_block (str '' b '') \<and>
   replace_block (str '' b '') = str '' // DISABLED: Implementation pending'' @ [10] @ str '' // b '' \<and>
   fixed_content (str ''/* a /* b */'') \<noteq> str ''/* a /* b */''"
  by code_simp

text \<open>
  Claim C1, amended. The loops of \<open>fix_multiline_comments\<close> compute the body scan of
  the specification, and the header skip of \<open>fix_file\<close> followed by them computes the
  whole rewrite: the protected header is copied, every well-formed region the scan
  meets from left to right is replaced by its rewriting, and every other character is
  copied in order. An open marker whose depth never comes back to zero is itself
  copied and the scan resumes one character after it, so a well-formed region that
  begins later in the buffer is still replaced.
\<close>

theorem rewrite_refines_spec:
  "fix_multiline_comments content = spec_rewrite_body content \<and>
   fixed_content content = spec_rewrite content"
proof -
  have "length (take (k + 2) content) = k + 2" if "spec_header_end content = Some k" for k
  proof -
    from that have "find (\<lambda>k. take 2 (drop k content) = str ''*/'') [3..<length content] = Some k"
      by (simp add: spec_header_end_def split: if_splits)
    then have "take 2 (drop k content) = str ''*/''"
      by (auto simp: find_Some_iff)
    then have "slice content k (k + 2) = str ''*/''"
      by (simp add: slice_def)
    then have "k + 2 \<le> length content"
      by (rule slice_full) simp_all
    then show ?thesis by simp
  qed
  then show ?thesis
    by (auto simp: fixed_content_def spec_rewrite_def header_match_spec fix_eq_spec_body Let_def
        simp del: length_take split: option.splits)
qed

theorem rewrite_refines_spec_witness:
  "fixed_content (str ''/** h */ a /* b /* c */ d */ e /* f'') =
     spec_rewrite (str ''/** h */ a /* b /* c */ d */ e /* f'') \<and>
   spec_rewrite (str ''/** h */ a /* b /* c */ d */ e /* f'') =
     str ''/** h */ a '' @ replace_block (str '' b /* c */ d '') @ str '' e /* f''"
proof -
  have "spec_rewrite (str ''/** h */ a /* b /* c */ d */ e /* f'') =
     str ''/** h */ a '' @ replace_block (str '' b /* c */ d '') @ str '' e /* f''"
    by code_simp
  then show ?thesis
    using rewrite_refines_spec[of "str ''/** h */ a /* b /* c */ d */ e /* f''"] by simp
qed

text \<open>
  Claim C5, as stated: the banner line is inserted immediately before the first
  transformed content line, at that line's indentation, so that an interior whose first
  non-blank line is \<open>foo\<close> at an indent of two spaces gives the banner and \<open>// foo\<close>,
  both at that indent, as its first two output lines. It fails on the interior of
  a comment that opens with a line break: the banner comes first, without indent, and
  the empty first line follows it.
\<close>

theorem banner_before_first_line_counterexample:
  "take 2 (py_split 10 (replace_block (str ''\<newline>  foo\<newline>''))) = [banner, []] \<and>
   take 2 (py_split 10 (replace_block (str ''\<newline>  foo\<newline>''))) \<noteq>
     [str ''  // DISABLED: Implementation pending'', str ''  // foo'']"
  by code_simp

text \<open>
  Claim C5, amended. The interior is split into lines at line breaks; a line that is
  empty or all whitespace is kept as it is, every other line becomes its leading
  whitespace, \<open>// \<close> and the line without that whitespace; the banner line is put in
  front of all lines, before the first line of the interior whether it is blank or not,
  at the leading whitespace of that first line (all of it when the line is blank); the
  lines are joined with line breaks, and they are the lines of the result. When the
  first line of the interior is \<open>foo\<close> at an indent of two spaces, the first two output
  lines are the banner and \<open>// foo\<close> at that indent.
\<close>

theorem line_reformatting:
  "replace_block interior =
     py_join [10] ((takeWhile isspace (hd (py_split 10 interior)) @ banner) #
       map convert_line (py_split 10 interior)) \<and>
   py_split 10 (replace_block interior) =
     (takeWhile isspace (hd (py_split 10 interior)) @ banner) #
       map convert_line (py_split 10 interior) \<and>
   convert_line line =
     (if \<forall>c\<in>set line. isspace c then line
      else takeWhile isspace line @ str ''// '' @ dropWhile isspace line) \<and>
   (interior = str ''  foo'' \<or> interior = str ''  foo'' @ [10] @ following \<longrightarrow>
      take 2 (py_split 10 (replace_block interior)) =
        [str ''  // DISABLED: Implementation pending'', str ''  // foo''])"
proof (intro conjI impI)
  show "replace_block interior =
     py_join [10] ((takeWhile isspace (hd (py_split 10 interior)) @ banner) #
       map convert_line (py_split 10 interior))"
    by (rule replace_block_eq)
  show "py_split 10 (replace_block interior) =
     (takeWhile isspace (hd (py_split 10 interior)) @ banner) #
       map convert_line (py_split 10 interior)"
    by (rule replace_block_lines)
  show "convert_line line =
     (if \<forall>c\<in>set line. isspace c then line
      else takeWhile isspace line @ str ''// '' @ dropWhile isspace line)"
    by (rule convert_line_eq)
  assume a: "interior = str ''  foo'' \<or> interior = str ''  foo'' @ [10] @ following"
  have f: "10 \<notin> set (str ''  foo'')"
    by (simp add: str_def)
  have "hd (py_split 10 interior) = str ''  foo''"
    using a f by (auto simp: py_split_def py_split_from_no_sep py_split_from_sep)
  moreover have "takeWhile isspace (str ''  foo'') @ banner = str ''  // DISABLED: Implementation pending''"
    and "convert_line (str ''  foo'') = str ''  // foo''"
    by code_simp+
  moreover have "py_split 10 interior \<noteq> []"
    by (simp add: py_split_def py_split_from_nonempty)
  ultimately show "take 2 (py_split 10 (replace_block interior)) =
        [str ''  // DISABLED: Implementation pending'', str ''  // foo'']"
    unfolding replace_block_lines by (cases "py_split 10 interior") auto
qed

theorem line_reformatting_witness:
  "py_split 10 (replace_block (str ''  foo\<newline>\<newline>    bar baz'')) =
     [str ''  // DISABLED: Implementation pending'', str ''  // foo'', [], str ''    // bar baz''] \<and>
   take 2 (py_split 10 (replace_block (str ''  foo\<newline>\<newline>    bar baz''))) =
     [str ''  // DISABLED: Implementation pending'', str ''  // foo'']"
proof -
  have e: "str ''  foo\<newline>\<newline>    bar baz'' = str ''  foo'' @ [10] @ str ''\<newline>    bar baz''"
    by (simp add: str_def)
  have "py_split 10 (replace_block (str ''  foo\<newline>\<newline>    bar baz'')) =
     [str ''  // DISABLED: Implementation pending'', str ''  // foo'', [], str ''    // bar baz'']"
    by code_simp
  moreover have "str ''  foo\<newline>\<newline>    bar baz'' = str ''  foo'' \<or>
      str ''  foo\<newline>\<newline>    bar baz'' = str ''  foo'' @ [10] @ str ''\<newline>    bar baz''"
    by (rule disjI2) (rule e)
  ultimately show ?thesis
    using line_reformatting[of "str ''  foo\<newline>\<newline>    bar baz''" "[]" "str ''\<newline>    bar baz''"]
    by blast
qed

text \<open>
  Claim C8. \<open>extract_metrics\<close> never divides by zero. In the record it returns, each
  of the two percentages is the float product by 100 of the correctly rounded quotient
  of the duplicated count by the total when the total is positive, and it is exactly
  the integer 0 when the total is 0. It returns a record whenever the two sums of
  duplicated counts are in range.
\<close>

theorem extract_metrics_percentages:
  "extract_metrics report \<noteq> Inl ZeroDivisionError \<and>
   (extract_metrics report = Inr m \<longrightarrow>
      line_duplication_pct m =
        (if 0 < total_lines m then
           PyFloat (float_mul (Finite (round_binary64
             (of_int (duplicated_lines m) / of_int (total_lines m)))) (Finite 100))
         else PyInt 0) \<and>
      token_duplication_pct m =
        (if 0 < total_tokens m then
           PyFloat (float_mul (Finite (round_binary64
             (of_int (duplicated_tokens m) / of_int (total_tokens m)))) (Finite 100))
         else PyInt 0) \<and>
      (total_lines m = 0 \<longrightarrow> line_duplication_pct m = PyInt 0) \<and>
      (total_tokens m = 0 \<longrightarrow> token_duplication_pct m = PyInt 0)) \<and>
   (fold add_format (formats (statistics report)) (0, 0, 0, 0, 0) = (nl, nt, dl, dt, nc) \<and>
    in_range dl \<and> in_range dt \<longrightarrow> (\<exists>r. extract_metrics report = Inr r))"
proof (intro conjI impI)
  show "extract_metrics report \<noteq> Inl ZeroDivisionError"
    using extract_metrics_error[of report ZeroDivisionError] by auto
next
  assume "fold add_format (formats (statistics report)) (0, 0, 0, 0, 0) = (nl, nt, dl, dt, nc) \<and>
    in_range dl \<and> in_range dt"
  then show "\<exists>r. extract_metrics report = Inr r"
    using extract_metrics_total[of report nl nt dl dt nc] by blast
next
  assume a: "extract_metrics report = Inr m"
  show l: "line_duplication_pct m =
        (if 0 < total_lines m then
           PyFloat (float_mul (Finite (round_binary64
             (of_int (duplicated_lines m) / of_int (total_lines m)))) (Finite 100))
         else PyInt 0)"
    using extract_metrics_fields(1)[OF a] by (rule ratio_pct_value)
  show t: "token_duplication_pct m =
        (if 0 < total_tokens m then
           PyFloat (float_mul (Finite (round_binary64
             (of_int (duplicated_tokens m) / of_int (total_tokens m)))) (Finite 100))
         else PyInt 0)"
    using extract_metrics_fields(2)[OF a] by (rule ratio_pct_value)
  {
    assume "total_lines m = 0"
    then show "line_duplication_pct m = PyInt 0" using l by simp
  }
  {
    assume "total_tokens m = 0"
    then show "token_duplication_pct m = PyInt 0" using t by simp
  }
qed

theorem extract_metrics_percentages_witness:
  "extract_metrics \<lparr>statistics = \<lparr>formats =
      [(''typescript'', [''total'' \<mapsto> [''lines'' \<mapsto> 0, ''tokens'' \<mapsto> 10000,
          ''duplicatedLines'' \<mapsto> 0, ''duplicatedTokens'' \<mapsto> 1000, ''clones'' \<mapsto> 7]]),
       (''css'', Map.empty)]\<rparr>\<rparr> =
     Inr \<lparr>total_lines = 0, total_tokens = 10000, duplicated_lines = 0, duplicated_tokens = 1000,
       total_clones = 7, line_duplication_pct = PyInt 0, token_duplication_pct = PyFloat (Finite 10)\<rparr> \<and>
   PyFloat (Finite 10) =
     PyFloat (float_mul (Finite (round_binary64 (of_int 1000 / of_int 10000))) (Finite 100))"
proof -
  let ?r = "\<lparr>statistics = \<lparr>formats =
      [(''typescript'', [''total'' \<mapsto> [''lines'' \<mapsto> 0, ''tokens'' \<mapsto> 10000,
          ''duplicatedLines'' \<mapsto> 0, ''duplicatedTokens'' \<mapsto> 1000, ''clones'' \<mapsto> 7]]),
       (''css'', Map.empty)]\<rparr>\<rparr>"
  let ?m = "\<lparr>total_lines = 0, total_tokens = 10000, duplicated_lines = 0, duplicated_tokens = 1000,
       total_clones = 7, line_duplication_pct = PyInt 0, token_duplication_pct = PyFloat (Finite 10)\<rparr>"
  have e: "extract_metrics ?r = Inr ?m"
    by code_simp
  then show ?thesis
    using extract_metrics_percentages[of ?r ?m] by simp
qed

text \<open>
  Claim C9. In a report that \<open>compare_metrics\<close> prints, each of the three verdicts is
  \<open>PASS\<close> or \<open>FAIL\<close>, and it is \<open>PASS\<close> exactly when, in this order, the final token
  duplication percentage is at most 4.5, the final number of clones is at most 100,
  and the token reduction percentage is at least 40, where this percentage is computed
  from the baseline and final duplicated tokens over the baseline duplicated tokens,
  times 100. For 1000 duplicated tokens of 10000 the percentage is 10, for 400 of 10000
  it is 4, and with these duplicated tokens as baseline and final the token reduction
  is 60 and its check reports \<open>PASS\<close>. The report is printed whenever the three
  reductions and the integers among the four percentages are in range.
\<close>

theorem success_criteria:
  "(compare_metrics baseline final = Inr out \<longrightarrow>
      (token_pct_verdict out = ''PASS'' \<longleftrightarrow>
         py_le (token_duplication_pct final) (PyFloat (Finite (45 / 10)))) \<and>
      (clones_verdict out = ''PASS'' \<longleftrightarrow> total_clones final \<le> 100) \<and>
      (reduction_verdict out = ''PASS'' \<longleftrightarrow> py_ge (token_reduction_pct out) (PyInt 40)) \<and>
      token_pct_verdict out \<in> {''PASS'', ''FAIL''} \<and>
      clones_verdict out \<in> {''PASS'', ''FAIL''} \<and>
      reduction_verdict out \<in> {''PASS'', ''FAIL''} \<and>
      ratio_pct (duplicated_tokens baseline - duplicated_tokens final) (duplicated_tokens baseline) =
        Inr (token_reduction_pct out)) \<and>
   ratio_pct 1000 10000 = Inr (PyFloat (Finite 10)) \<and>
   ratio_pct 400 10000 = Inr (PyFloat (Finite 4)) \<and>
   (duplicated_tokens baseline = 1000 \<and> duplicated_tokens final = 400 \<and>
    compare_metrics baseline final = Inr out \<longrightarrow>
      token_reduction_pct out = PyFloat (Finite 60) \<and> reduction_verdict out = ''PASS'') \<and>
   (in_range (duplicated_lines baseline - duplicated_lines final) \<and>
    in_range (duplicated_tokens baseline - duplicated_tokens final) \<and>
    in_range (total_clones baseline - total_clones final) \<and>
    num_in_range (line_duplication_pct baseline) \<and> num_in_range (line_duplication_pct final) \<and>
    num_in_range (token_duplication_pct baseline) \<and> num_in_range (token_duplication_pct final) \<longrightarrow>
      (\<exists>r. compare_metrics baseline final = Inr r))"
proof (intro conjI impI)
  assume "in_range (duplicated_lines baseline - duplicated_lines final) \<and>
    in_range (duplicated_tokens baseline - duplicated_tokens final) \<and>
    in_range (total_clones baseline - total_clones final) \<and>
    num_in_range (line_duplication_pct baseline) \<and> num_in_range (line_duplication_pct final) \<and>
    num_in_range (token_duplication_pct baseline) \<and> num_in_range (token_duplication_pct final)"
  then show "\<exists>r. compare_metrics baseline final = Inr r"
    using compare_metrics_total[of baseline final] by blast
next
  assume a: "compare_metrics baseline final = Inr out"
  note f = compare_metrics_Inr[OF a]
  show "token_pct_verdict out = ''PASS'' \<longleftrightarrow>
      py_le (token_duplication_pct final) (PyFloat (Finite (45 / 10)))"
    unfolding f(2) by (rule verdict_PASS)
  show "clones_verdict out = ''PASS'' \<longleftrightarrow> total_clones final \<le> 100"
    unfolding f(3) by (rule verdict_PASS)
  show "reduction_verdict out = ''PASS'' \<longleftrightarrow> py_ge (token_reduction_pct out) (PyInt 40)"
    unfolding f(4) by (rule verdict_PASS)
  show "token_pct_verdict out \<in> {''PASS'', ''FAIL''}"
    unfolding f(2) by (simp add: verdict_def)
  show "clones_verdict out \<in> {''PASS'', ''FAIL''}"
    unfolding f(3) by (simp add: verdict_def)
  show "reduction_verdict out \<in> {''PASS'', ''FAIL''}"
    unfolding f(4) by (simp add: verdict_def)
  show "ratio_pct (duplicated_tokens baseline - duplicated_tokens final) (duplicated_tokens baseline) =
      Inr (token_reduction_pct out)"
    by (rule f(1))
next
  show "ratio_pct 1000 10000 = Inr (PyFloat (Finite 10))"
    by code_simp
  show "ratio_pct 400 10000 = Inr (PyFloat (Finite 4))"
    by code_simp
next
  assume b: "duplicated_tokens baseline = 1000 \<and> duplicated_tokens final = 400 \<and>
    compare_metrics baseline final = Inr out"
  then have a: "compare_metrics baseline final = Inr out" by simp
  have r: "ratio_pct (1000 - 400) 1000 = Inr (PyFloat (Finite 60))"
    by code_simp
  have p: "py_ge (PyFloat (Finite 60)) (PyInt 40)"
    by code_simp
  have t: "token_reduction_pct out = PyFloat (Finite 60)"
    using compare_metrics_Inr(1)[OF a] b r by simp
  then show "token_reduction_pct out = PyFloat (Finite 60)" .
  show "reduction_verdict out = ''PASS''"
    unfolding compare_metrics_Inr(4)[OF a] t using p by (simp add: verdict_def)
qed

theorem success_criteria_witness:
  "compare_metrics
     \<lparr>total_lines = 0, total_tokens = 10000, duplicated_lines = 0, duplicated_tokens = 1000,
       total_clones = 0, line_duplication_pct = PyInt 0, token_duplication_pct = PyFloat (Finite 10)\<rparr>
     \<lparr>total_lines = 0, total_tokens = 10000, duplicated_lines = 0, duplicated_tokens = 400,
       total_clones = 0, line_duplication_pct = PyInt 0, token_duplication_pct = PyFloat (Finite 4)\<rparr> =
   Inr \<lparr>line_reduction = 0, token_reduction = 600, clone_reduction = 0,
        line_reduction_pct = PyInt 0, token_reduction_pct = PyFloat (Finite 60),
        clone_reduction_pct = PyInt 0, line_pct_change = PyInt 0,
        token_pct_change = PyFloat (Finite 6), token_pct_verdict = ''PASS'',
        clones_verdict = ''PASS'', reduction_verdict = ''PASS'', all_pass = True\<rparr> \<and>
   py_le (PyFloat (Finite 4)) (PyFloat (Finite (45 / 10))) \<and> (0::int) \<le> 100 \<and>
   py_ge (PyFloat (Finite 60)) (PyInt 40)"
proof -
  let ?b = "\<lparr>total_lines = 0, total_tokens = 10000, duplicated_lines = 0, duplicated_tokens = 1000,
       total_clones = 0, line_duplication_pct = PyInt 0, token_duplication_pct = PyFloat (Finite 10)\<rparr>"
  let ?f = "\<lparr>total_lines = 0, total_tokens = 10000, duplicated_lines = 0, duplicated_tokens = 400,
       total_clones = 0, line_duplication_pct = PyInt 0, token_duplication_pct = PyFloat (Finite 4)\<rparr>"
  let ?o = "\<lparr>line_reduction = 0, token_reduction = 600, clone_reduction = 0,
        line_reduction_pct = PyInt 0, token_reduction_pct = PyFloat (Finite 60),
        clone_reduction_pct = PyInt 0, line_pct_change = PyInt 0,
        token_pct_change = PyFloat (Finite 6), token_pct_verdict = ''PASS'',
        clones_verdict = ''PASS'', reduction_verdict = ''PASS'', all_pass = True\<rparr>"
  have e: "compare_metrics ?b ?f = Inr ?o"
    by code_simp
  then show ?thesis
    using success_criteria[of ?b ?f ?o] by simp
qed

text \<open>
  Claim C10. When the duplicated tokens of the baseline are 0, the token reduction
  percentage is the integer 0 whatever the final record is, 0 is not at least 40, and
  every report printed says \<open>FAIL\<close> for the reduction check and does not pass as a
  whole; the two other verdicts are what the final record alone makes them. Such a
  report is printed whenever the reductions and the integers among the percentages are
  in range.
\<close>

theorem zero_baseline_fails_reduction:
  assumes "duplicated_tokens baseline = 0"
  shows "ratio_pct (duplicated_tokens baseline - duplicated_tokens final) (duplicated_tokens baseline) =
      Inr (PyInt 0) \<and>
    \<not> py_ge (PyInt 0) (PyInt 40) \<and>
    (compare_metrics baseline final = Inr out \<longrightarrow>
       token_reduction_pct out = PyInt 0 \<and> reduction_verdict out = ''FAIL'' \<and> \<not> all_pass out \<and>
       token_pct_verdict out =
         verdict (py_le (token_duplication_pct final) (PyFloat (Finite (45 / 10)))) \<and>
       clones_verdict out = verdict (total_clones final \<le> 100)) \<and>
    (in_range (duplicated_lines baseline - duplicated_lines final) \<and>
     in_range (duplicated_tokens final) \<and>
     in_range (total_clones baseline - total_clones final) \<and>
     num_in_range (line_duplication_pct baseline) \<and> num_in_range (line_duplication_pct final) \<and>
     num_in_range (token_duplication_pct baseline) \<and> num_in_range (token_duplication_pct final) \<longrightarrow>
       (\<exists>r. compare_metrics baseline final = Inr r \<and> reduction_verdict r = ''FAIL''))"
proof (intro conjI impI)
  assume r: "in_range (duplicated_lines baseline - duplicated_lines final) \<and>
     in_range (duplicated_tokens final) \<and>
     in_range (total_clones baseline - total_clones final) \<and>
     num_in_range (line_duplication_pct baseline) \<and> num_in_range (line_duplication_pct final) \<and>
     num_in_range (token_duplication_pct baseline) \<and> num_in_range (token_duplication_pct final)"
  then have "in_range (duplicated_tokens baseline - duplicated_tokens final)"
    using assms by (simp add: in_range_def)
  with r obtain r' where c: "compare_metrics baseline final = Inr r'"
    using compare_metrics_total[of baseline final] by blast
  have "ratio_pct (duplicated_tokens baseline - duplicated_tokens final) (duplicated_tokens baseline) =
      Inr (PyInt 0)"
    using assms by (simp add: ratio_pct_def)
  then have "token_reduction_pct r' = PyInt 0"
    using compare_metrics_Inr(1)[OF c] by simp
  then have "reduction_verdict r' = ''FAIL''"
    unfolding compare_metrics_Inr(4)[OF c] by (simp add: verdict_def py_ge_def)
  with c show "\<exists>r. compare_metrics baseline final = Inr r \<and> reduction_verdict r = ''FAIL''"
    by blast
next
  show z: "ratio_pct (duplicated_tokens baseline - duplicated_tokens final) (duplicated_tokens baseline) =
      Inr (PyInt 0)"
    using assms by (simp add: ratio_pct_def)
  show n: "\<not> py_ge (PyInt 0) (PyInt 40)"
    by (simp add: py_ge_def)
  assume a: "compare_metrics baseline final = Inr out"
  note f = compare_metrics_Inr[OF a]
  show t: "token_reduction_pct out = PyInt 0"
    using f(1) z by simp
  show "reduction_verdict out = ''FAIL''"
    unfolding f(4) t using n by (simp add: verdict_def)
  show "\<not> all_pass out"
    unfolding f(5) t using n by simp
  show "token_pct_verdict out =
      verdict (py_le (token_duplication_pct final) (PyFloat (Finite (45 / 10))))"
    by (rule f(2))
  show "clones_verdict out = verdict (total_clones final \<le> 100)"
    by (rule f(3))
qed

theorem zero_baseline_fails_reduction_witness:
  "compare_metrics
     \<lparr>total_lines = 200, total_tokens = 10000, duplicated_lines = 0, duplicated_tokens = 0,
       total_clones = 0, line_duplication_pct = PyFloat (Finite 0), token_duplication_pct = PyFloat (Finite 0)\<rparr>
     \<lparr>total_lines = 200, total_tokens = 10000, duplicated_lines = 0, duplicated_tokens = 0,
       total_clones = 0, line_duplication_pct = PyFloat (Finite 0), token_duplication_pct = PyFloat (Finite 0)\<rparr> =
   Inr \<lparr>line_reduction = 0, token_reduction = 0, clone_reduction = 0,
        line_reduction_pct = PyInt 0, token_reduction_pct = PyInt 0,
        clone_reduction_pct = PyInt 0, line_pct_change = PyFloat (Finite 0),
        token_pct_change = PyFloat (Finite 0), token_pct_verdict = ''PASS'',
        clones_verdict = ''PASS'', reduction_verdict = ''FAIL'', all_pass = False\<rparr> \<and>
   reduction_verdict \<lparr>line_reduction = 0, token_reduction = 0, clone_reduction = 0,
        line_reduction_pct = PyInt 0, token_reduction_pct = PyInt 0,
        clone_reduction_pct = PyInt 0, line_pct_change = PyFloat (Finite 0),
        token_pct_change = PyFloat (Finite 0), token_pct_verdict = ''PASS'',
        clones_verdict = ''PASS'', reduction_verdict = ''FAIL'', all_pass = False\<rparr> = ''FAIL''"
proof -
  let ?b = "\<lparr>total_lines = 200, total_tokens = 10000, duplicated_lines = 0, duplicated_tokens = 0,
       total_clones = 0, line_duplication_pct = PyFloat (Finite 0), token_duplication_pct = PyFloat (Finite 0)\<rparr>"
  let ?o = "\<lparr>line_reduction = 0, token_reduction = 0, clone_reduction = 0,
        line_reduction_pct = PyInt 0, token_reduction_pct = PyInt 0,
        clone_reduction_pct = PyInt 0, line_pct_change = PyFloat (Finite 0),
        token_pct_change = PyFloat (Finite 0), token_pct_verdict = ''PASS'',
        clones_verdict = ''PASS'', reduction_verdict = ''FAIL'', all_pass = False\<rparr>"
  have z: "duplicated_tokens ?b = 0"
    by simp
  have e: "compare_metrics ?b ?b = Inr ?o"
    by code_simp
  then show ?thesis
    using zero_baseline_fails_reduction[OF z, of ?b ?o] by simp
qed

end
